theory Spec2Isabelle
  imports Main
begin

section \<open>Go strings\<close>

text \<open>
  A Go string is a sequence of bytes; \<open>len\<close> counts bytes and \<open>name[:100]\<close> slices bytes.
  The model uses \<^typ>\<open>string\<close> (a list of 8-bit characters) for it, so a non-ASCII rune is
  the several bytes of its UTF-8 encoding.
\<close>

text \<open>
  \<open>unicode.IsSpace\<close>: the UTF-8 encodings of the runes that Go treats as white space
  (the six ASCII ones, U+0085, U+00A0, U+1680, U+2000 to U+200A, U+2028, U+2029, U+202F,
  U+205F and U+3000).
\<close>

definition spaceRunes :: "string list" where
  "spaceRunes =
     [[CHR 0x09], [CHR 0x0A], [CHR 0x0B], [CHR 0x0C], [CHR 0x0D], [CHR 0x20],
      [CHR 0xC2, CHR 0x85], [CHR 0xC2, CHR 0xA0],
      [CHR 0xE1, CHR 0x9A, CHR 0x80],
      [CHR 0xE2, CHR 0x80, CHR 0x80], [CHR 0xE2, CHR 0x80, CHR 0x81],
      [CHR 0xE2, CHR 0x80, CHR 0x82], [CHR 0xE2, CHR 0x80, CHR 0x83],
      [CHR 0xE2, CHR 0x80, CHR 0x84], [CHR 0xE2, CHR 0x80, CHR 0x85],
      [CHR 0xE2, CHR 0x80, CHR 0x86], [CHR 0xE2, CHR 0x80, CHR 0x87],
      [CHR 0xE2, CHR 0x80, CHR 0x88], [CHR 0xE2, CHR 0x80, CHR 0x89],
      [CHR 0xE2, CHR 0x80, CHR 0x8A],
      [CHR 0xE2, CHR 0x80, CHR 0xA8], [CHR 0xE2, CHR 0x80, CHR 0xA9],
      [CHR 0xE2, CHR 0x80, CHR 0xAF],
      [CHR 0xE2, CHR 0x81, CHR 0x9F],
      [CHR 0xE3, CHR 0x80, CHR 0x80]]"

text \<open>The white-space rune a string starts with, if any.\<close>

definition leadingRune :: "string list \<Rightarrow> string \<Rightarrow> string option" where
  "leadingRune toks s = find (\<lambda>t. t \<noteq> [] \<and> take (length t) s = t) toks"

text \<open>
  \<open>strings.TrimLeftFunc(s, unicode.IsSpace)\<close>: drop white-space runes from the front until
  the string starts with something else.
\<close>

function stripRunes :: "string list \<Rightarrow> string \<Rightarrow> string" where
  "stripRunes toks s =
     (case leadingRune toks s of
        None \<Rightarrow> s
      | Some t \<Rightarrow> stripRunes toks (drop (length t) s))"
  by pat_completeness auto
termination
proof (relation "measure (\<lambda>(toks, s). length s)")
  show "wf (measure (\<lambda>(toks, s). length s))" by simp
next
  fix toks :: "string list" and s t :: string
  assume "leadingRune toks s = Some t"
  then have t: "t \<noteq> []" and pre: "take (length t) s = t"
    by (auto simp: leadingRune_def find_Some_iff)
  from pre have "length (take (length t) s) = length t"
    by simp
  then have "length t \<le> length s"
    by simp
  moreover from t have "0 < length t"
    by simp
  ultimately have "length s - length t < length s"
    by linarith
  then show "((toks, drop (length t) s), (toks, s)) \<in> measure (\<lambda>(toks, s). length s)"
    by simp
qed

definition TrimLeft :: "string \<Rightarrow> string" where
  "TrimLeft s = stripRunes spaceRunes s"

text \<open>\<open>strings.TrimRightFunc(s, unicode.IsSpace)\<close>: the same from the end of the string.\<close>

definition TrimRight :: "string \<Rightarrow> string" where
  "TrimRight s = rev (stripRunes (map rev spaceRunes) (rev s))"

text \<open>\<open>strings.TrimSpace\<close>.\<close>

definition TrimSpace :: "string \<Rightarrow> string" where
  "TrimSpace s = TrimRight (TrimLeft s)"

text \<open>
  \<open>strings.ReplaceAll(s, string(c), "_")\<close> for a one-byte \<open>old\<close>: every occurrence of the
  byte is replaced.
\<close>

definition ReplaceAll :: "string \<Rightarrow> char \<Rightarrow> char \<Rightarrow> string" where
  "ReplaceAll s old new = map (\<lambda>c. if c = old then new else c) s"

text \<open>
  \<open>strings.ToUpper\<close> and \<open>strings.ToLower\<close> on the ASCII letters. Go maps the other runes
  by the Unicode tables; the model leaves their bytes as they are. For the lookup in
  \<open>SanitizeFolderName\<close> this makes no difference: the only runes outside ASCII whose
  upper case is an ASCII letter are U+0131 and U+017F, which become \<open>I\<close> and \<open>S\<close>, and no
  key of the table has either letter. For \<open>DetectSource\<close> the model is exact on ASCII file
  names.
\<close>

definition upperByte :: "char \<Rightarrow> char" where
  "upperByte c =
     (let n = (of_char c :: nat) in if 97 \<le> n \<and> n \<le> 122 then char_of (n - 32) else c)"

definition lowerByte :: "char \<Rightarrow> char" where
  "lowerByte c =
     (let n = (of_char c :: nat) in if 65 \<le> n \<and> n \<le> 90 then char_of (n + 32) else c)"

definition ToUpper :: "string \<Rightarrow> string" where
  "ToUpper s = map upperByte s"

definition ToLower :: "string \<Rightarrow> string" where
  "ToLower s = map lowerByte s"

section \<open>Path sanitizer\<close>

definition invalidChars :: "char list" where
  "invalidChars =
     [CHR ''<'', CHR ''>'', CHR '':'', CHR 0x22, CHR ''/'', CHR 0x5C, CHR ''|'', CHR ''?'',
      CHR ''*'', CHR ''.'']"

text \<open>The \<open>reserved\<close> map of \<open>SanitizeFolderName\<close>; a missing key reads as \<open>false\<close>.\<close>

definition reserved :: "string \<rightharpoonup> bool" where
  "reserved =
     map_of [(''CON'', True), (''PRN'', True), (''AUX'', True), (''NUL'', True),
             (''COM1'', True), (''LPT1'', True)]"

definition lookupBool :: "(string \<rightharpoonup> bool) \<Rightarrow> string \<Rightarrow> bool" where
  "lookupBool m k = (case m k of None \<Rightarrow> False | Some b \<Rightarrow> b)"

definition SanitizeFolderName :: "string \<Rightarrow> string" where
  "SanitizeFolderName name0 =
     (let name1 = TrimSpace name0 in
      if name1 = '''' \<or> name1 = ''.'' \<or> name1 = ''..'' then ''Unknown''
      else
        let name2 = foldl (\<lambda>name c. ReplaceAll name c (CHR ''_'')) name1 invalidChars in
        if lookupBool reserved (ToUpper name2) then name2 @ ''_safe''
        else if length name2 > 100 then take 100 name2
        else name2)"

section \<open>Destination category\<close>

record FileInfo =
  Path :: string
  Filename :: string
  Size :: int
  Year :: string
  Month :: string
  Device :: string
  Source :: string
  MD5 :: string

text \<open>
  The value of the variable \<open>device\<close> of \<open>MoveFile\<close> when the target directory is joined:
  the last segment of the directory the file goes to.
\<close>

definition MoveFile_device :: "FileInfo \<Rightarrow> string" where
  "MoveFile_device info =
     (let device0 = SanitizeFolderName (Device info);
          device1 =
            (if Source info \<noteq> '''' \<and> Source info \<noteq> ''Other_Imports'' then
               (if Device info = ''Unknown'' \<or> Device info = '''' then
                  SanitizeFolderName (Source info)
                else SanitizeFolderName (Source info @ ''_'' @ Device info))
             else device0)
      in if device1 = ''Unknown'' \<or> device1 = '''' then ''Other_Sorted'' else device1)"

text \<open>
  The category label in the specification's words: source and device combined when the
  source is a known classification other than the generic fallback and the device is
  informative, the source alone when the device is not, the device alone otherwise.
\<close>

definition combinedLabel :: "string \<Rightarrow> string \<Rightarrow> string" where
  "combinedLabel source device =
     (if source \<noteq> '''' \<and> source \<noteq> ''Other_Imports'' then
        (if device \<noteq> '''' \<and> device \<noteq> ''Unknown'' then source @ ''_'' @ device else source)
      else device)"

definition categoryLabel_spec :: "string \<Rightarrow> string \<Rightarrow> string" where
  "categoryLabel_spec source device =
     (let label = combinedLabel source device
      in if label = '''' \<or> label = ''Unknown'' then ''Other_Sorted'' else label)"

section \<open>Source classifier\<close>

text \<open>\<open>strings.Contains\<close>.\<close>

fun Contains :: "string \<Rightarrow> string \<Rightarrow> bool" where
  "Contains [] sub = (sub = [])"
| "Contains (c # cs) sub = (take (length sub) (c # cs) = sub \<or> Contains cs sub)"

text \<open>The entries of the map \<open>patterns\<close> of \<open>DetectSource\<close>, in the order of the source text.\<close>

definition patterns :: "(string \<times> string) list" where
  "patterns =
     [(''whatsapp'', ''WhatsApp''), (''-wa'', ''WhatsApp''), (''telegram'', ''Telegram''),
      (''screenshot'', ''Screenshots''), (''ekran'', ''Screenshots''),
      (''instagram'', ''Instagram''), (''ig_'', ''Instagram''),
      (''camera'', ''Camera''), (''dcim'', ''Camera''), (''pxl_'', ''Camera''),
      (''img_'', ''Camera''), (''vid_'', ''Camera'')]"

text \<open>
  \<open>DetectSource\<close> ranges over a Go map, and Go leaves the order of a \<open>range\<close> over a map
  unspecified: it may differ from one run of the loop to the next. The order in which one
  run of the loop visits the entries is the parameter \<open>order\<close>, some arrangement of
  \<^const>\<open>patterns\<close>.
\<close>

definition DetectSource :: "(string \<times> string) list \<Rightarrow> string \<Rightarrow> string" where
  "DetectSource order filename =
     (let lower = ToLower (TrimSpace filename)
      in case find (\<lambda>(pattern, source). Contains lower pattern) order of
           Some (pattern, source) \<Rightarrow> source
         | None \<Rightarrow> ''Other_Imports'')"

section \<open>The file system\<close>

type_synonym path = string
type_synonym bytes = string

datatype errno = ENOENT | EIO | EXDEV

text \<open>
  What the environment does to one call of the operating system: nothing, an error, an
  error after the bytes given were written, or a reported success with the bytes given in
  place of the right ones (a read or a write that corrupts silently).
\<close>

datatype fault = NoFault | Fail | Partial bytes | Garble bytes

datatype oscall =
  Stat path | Open path | Create path | ReadAll path | CopyData path path | Sync path
  | Rename path path | Remove path

text \<open>
  The state: the content of every file, the faults the environment has in store for the
  coming calls (the head for the next call; none when the list is empty), and the calls
  made so far with their success, oldest first.
\<close>

record world =
  files :: "path \<rightharpoonup> bytes"
  pending :: "fault list"
  trace :: "(oscall \<times> bool) list"

definition nextFault :: "world \<Rightarrow> fault" where
  "nextFault w = (case pending w of [] \<Rightarrow> NoFault | f # _ \<Rightarrow> f)"

definition logged :: "world \<Rightarrow> oscall \<Rightarrow> bool \<Rightarrow> (path \<rightharpoonup> bytes) \<Rightarrow> world" where
  "logged w c ok fs = \<lparr>files = fs, pending = tl (pending w), trace = trace w @ [(c, ok)]\<rparr>"

definition isOk :: "'e + 'a \<Rightarrow> bool" where
  "isOk r = (case r of Inl _ \<Rightarrow> False | Inr _ \<Rightarrow> True)"

text \<open>\<open>os.Stat\<close>: the size of the file.\<close>

definition osStat :: "world \<Rightarrow> path \<Rightarrow> (errno + int) \<times> world" where
  "osStat w p =
     (let r = (case nextFault w of
                 NoFault \<Rightarrow> (case files w p of None \<Rightarrow> Inl ENOENT
                               | Some c \<Rightarrow> Inr (int (length c)))
               | _ \<Rightarrow> Inl EIO)
      in (r, logged w (Stat p) (isOk r) (files w)))"

text \<open>\<open>os.IsNotExist\<close> on the error of a call.\<close>

definition IsNotExist :: "errno + 'a \<Rightarrow> bool" where
  "IsNotExist r = (case r of Inl e \<Rightarrow> e = ENOENT | Inr _ \<Rightarrow> False)"

text \<open>\<open>os.Open\<close>, for reading.\<close>

definition osOpen :: "world \<Rightarrow> path \<Rightarrow> (errno + unit) \<times> world" where
  "osOpen w p =
     (let r = (case nextFault w of
                 NoFault \<Rightarrow> (case files w p of None \<Rightarrow> Inl ENOENT | Some c \<Rightarrow> Inr ())
               | _ \<Rightarrow> Inl EIO)
      in (r, logged w (Open p) (isOk r) (files w)))"

text \<open>\<open>os.Create\<close>: the file exists and is empty afterwards.\<close>

definition osCreate :: "world \<Rightarrow> path \<Rightarrow> (errno + unit) \<times> world" where
  "osCreate w p =
     (case nextFault w of
        NoFault \<Rightarrow> (Inr (), logged w (Create p) True ((files w)(p \<mapsto> [])))
      | _ \<Rightarrow> (Inl EIO, logged w (Create p) False (files w)))"

text \<open>\<open>io.Copy(hasher, f)\<close>: the bytes read from the open file.\<close>

definition ioReadAll :: "world \<Rightarrow> path \<Rightarrow> (errno + bytes) \<times> world" where
  "ioReadAll w p =
     (let r = (case nextFault w of
                 NoFault \<Rightarrow> (case files w p of None \<Rightarrow> Inl EIO | Some c \<Rightarrow> Inr c)
               | Garble bs \<Rightarrow> Inr bs
               | _ \<Rightarrow> Inl EIO)
      in (r, logged w (ReadAll p) (isOk r) (files w)))"

text \<open>\<open>io.Copy(out, in)\<close> between two open files.\<close>

definition ioCopy :: "world \<Rightarrow> path \<Rightarrow> path \<Rightarrow> (errno + unit) \<times> world" where
  "ioCopy w src dst =
     (case nextFault w of
        NoFault \<Rightarrow>
          (case files w src of
             None \<Rightarrow> (Inl EIO, logged w (CopyData src dst) False (files w))
           | Some c \<Rightarrow> (Inr (), logged w (CopyData src dst) True ((files w)(dst \<mapsto> c))))
      | Fail \<Rightarrow> (Inl EIO, logged w (CopyData src dst) False (files w))
      | Partial bs \<Rightarrow> (Inl EIO, logged w (CopyData src dst) False ((files w)(dst \<mapsto> bs)))
      | Garble bs \<Rightarrow> (Inr (), logged w (CopyData src dst) True ((files w)(dst \<mapsto> bs))))"

text \<open>\<open>out.Sync()\<close>.\<close>

definition fileSync :: "world \<Rightarrow> path \<Rightarrow> (errno + unit) \<times> world" where
  "fileSync w p =
     (let r = (case nextFault w of NoFault \<Rightarrow> Inr () | _ \<Rightarrow> Inl EIO)
      in (r, logged w (Sync p) (isOk r) (files w)))"

text \<open>\<open>os.Rename\<close>: fails across volumes; replaces the destination otherwise.\<close>

definition osRename :: "world \<Rightarrow> path \<Rightarrow> path \<Rightarrow> (errno + unit) \<times> world" where
  "osRename w src dst =
     (case nextFault w of
        NoFault \<Rightarrow>
          (case files w src of
             None \<Rightarrow> (Inl ENOENT, logged w (Rename src dst) False (files w))
           | Some c \<Rightarrow>
               (Inr (), logged w (Rename src dst) True ((files w)(src := None, dst \<mapsto> c))))
      | _ \<Rightarrow> (Inl EXDEV, logged w (Rename src dst) False (files w)))"

text \<open>\<open>os.Remove\<close>.\<close>

definition osRemove :: "world \<Rightarrow> path \<Rightarrow> (errno + unit) \<times> world" where
  "osRemove w p =
     (case nextFault w of
        NoFault \<Rightarrow>
          (case files w p of
             None \<Rightarrow> (Inl ENOENT, logged w (Remove p) False (files w))
           | Some c \<Rightarrow> (Inr (), logged w (Remove p) True ((files w)(p := None))))
      | _ \<Rightarrow> (Inl EIO, logged w (Remove p) False (files w)))"

section \<open>Hashing and copying\<close>

text \<open>
  \<open>GetFileHash\<close>, and \<open>fileHash\<close> of the command-line variant, which has the same body. The
  digest \<open>H\<close> (MD5 in hexadecimal) is a parameter.
\<close>

definition GetFileHash :: "(bytes \<Rightarrow> 'h) \<Rightarrow> world \<Rightarrow> path \<Rightarrow> (errno + 'h) \<times> world" where
  "GetFileHash H w p =
     (case osOpen w p of
        (Inl e, w1) \<Rightarrow> (Inl e, w1)
      | (Inr _, w1) \<Rightarrow>
          (case ioReadAll w1 p of
             (Inl e, w2) \<Rightarrow> (Inl e, w2)
           | (Inr bs, w2) \<Rightarrow> (Inr (H bs), w2)))"

definition fileHash :: "(bytes \<Rightarrow> 'h) \<Rightarrow> world \<Rightarrow> path \<Rightarrow> (errno + 'h) \<times> world" where
  "fileHash H w p = GetFileHash H w p"

text \<open>\<open>CopyFile\<close>, and \<open>copyFile\<close> of the command-line variant, which has the same body.\<close>

definition CopyFile :: "world \<Rightarrow> path \<Rightarrow> path \<Rightarrow> (errno + unit) \<times> world" where
  "CopyFile w src dst =
     (case osOpen w src of
        (Inl e, w1) \<Rightarrow> (Inl e, w1)
      | (Inr _, w1) \<Rightarrow>
          (case osCreate w1 dst of
             (Inl e, w2) \<Rightarrow> (Inl e, w2)
           | (Inr _, w2) \<Rightarrow>
               (case ioCopy w2 src dst of
                  (Inl e, w3) \<Rightarrow> (Inl e, w3)
                | (Inr _, w3) \<Rightarrow> fileSync w3 dst)))"

definition copyFile :: "world \<Rightarrow> path \<Rightarrow> path \<Rightarrow> (errno + unit) \<times> world" where
  "copyFile w src dst = CopyFile w src dst"

section \<open>Duplicate detector\<close>

datatype dupError = StatSrc errno | StatDst errno | HashSrc errno | HashDst errno

definition IsDuplicate ::
  "(bytes \<Rightarrow> 'h) \<Rightarrow> world \<Rightarrow> path \<Rightarrow> path \<Rightarrow> (dupError + bool) \<times> world" where
  "IsDuplicate H w p1 p2 =
     (case osStat w p1 of
        (Inl e, w1) \<Rightarrow> (Inl (StatSrc e), w1)
      | (Inr s1, w1) \<Rightarrow>
          (case osStat w1 p2 of
             (Inl e, w2) \<Rightarrow> (Inl (StatDst e), w2)
           | (Inr s2, w2) \<Rightarrow>
               if s1 \<noteq> s2 then (Inr False, w2)
               else
                 (case GetFileHash H w2 p1 of
                    (Inl e, w3) \<Rightarrow> (Inl (HashSrc e), w3)
                  | (Inr h1, w3) \<Rightarrow>
                      (case GetFileHash H w3 p2 of
                         (Inl e, w4) \<Rightarrow> (Inl (HashDst e), w4)
                       | (Inr h2, w4) \<Rightarrow> (Inr (h1 = h2), w4)))))"

text \<open>\<open>isDuplicate\<close> of the command-line variant: a plain boolean.\<close>

definition isDuplicate :: "(bytes \<Rightarrow> 'h) \<Rightarrow> world \<Rightarrow> path \<Rightarrow> path \<Rightarrow> bool \<times> world" where
  "isDuplicate H w p1 p2 =
     (case fileHash H w p1 of
        (r1, w1) \<Rightarrow>
          (case fileHash H w1 p2 of
             (r2, w2) \<Rightarrow>
               ((case (r1, r2) of (Inr h1, Inr h2) \<Rightarrow> h1 = h2 | _ \<Rightarrow> False), w2)))"

section \<open>Conflict resolver\<close>

text \<open>\<open>os.IsPathSeparator\<close> on Windows, which the organizer package is built for.\<close>

definition IsPathSeparator :: "char \<Rightarrow> bool" where
  "IsPathSeparator c = (c = CHR 0x5C \<or> c = CHR ''/'')"

text \<open>
  \<open>filepath.Ext\<close>: from the end of the path towards its last separator, the suffix that
  starts at the first dot met. The first argument is the part of the path not yet looked
  at, reversed; the second is the suffix already passed.
\<close>

fun extFrom :: "string \<Rightarrow> string \<Rightarrow> string" where
  "extFrom [] suffix = ''''"
| "extFrom (c # cs) suffix =
     (if IsPathSeparator c then ''''
      else if c = CHR ''.'' then c # suffix
      else extFrom cs (c # suffix))"

definition Ext :: "string \<Rightarrow> string" where
  "Ext p = extFrom (rev p) ''''"

text \<open>\<open>strings.TrimSuffix\<close>.\<close>

definition TrimSuffix :: "string \<Rightarrow> string \<Rightarrow> string" where
  "TrimSuffix s suffix =
     (if length suffix \<le> length s \<and> drop (length s - length suffix) s = suffix
      then take (length s - length suffix) s else s)"

text \<open>The verb \<open>%d\<close> of \<open>fmt.Sprintf\<close> on a number that is not negative.\<close>

fun itoa :: "nat \<Rightarrow> string" where
  "itoa n = (if n < 10 then [char_of (48 + n)] else itoa (n div 10) @ [char_of (48 + n mod 10)])"

declare itoa.simps [simp del]

definition candidate :: "string \<Rightarrow> string \<Rightarrow> nat \<Rightarrow> string" where
  "candidate base ext i = base @ ''_'' @ itoa i @ ext"

text \<open>The loop of \<open>ResolveConflict\<close>, from the counter \<open>i\<close> on.\<close>

function resolveFrom :: "world \<Rightarrow> string \<Rightarrow> string \<Rightarrow> string \<Rightarrow> nat \<Rightarrow> string \<times> world" where
  "resolveFrom w base ext p i =
     (if i < 10000 then
        (let newPath = candidate base ext i in
         case osStat w newPath of
           (r, w1) \<Rightarrow>
             if IsNotExist r then (newPath, w1) else resolveFrom w1 base ext p (i + 1))
      else (p, w))"
  by pat_completeness auto
termination
  by (relation "measure (\<lambda>(w, base, ext, p, i). 10000 - i)") auto

declare resolveFrom.simps [simp del]

text \<open>
  \<open>ResolveConflict\<close>, and \<open>resolveConflict\<close> of the command-line variant, which has the same
  body. Built for a system other than Windows, \<open>filepath.Ext\<close> stops at \<open>/\<close> only, so the
  candidate names of the command-line variant differ there for a path with a backslash
  after its last dot; the search is the same.
\<close>

definition ResolveConflict :: "world \<Rightarrow> string \<Rightarrow> string \<times> world" where
  "ResolveConflict w p =
     (let ext = Ext p; base = TrimSuffix p ext in resolveFrom w base ext p 1)"

definition resolveConflict :: "world \<Rightarrow> string \<Rightarrow> string \<times> world" where
  "resolveConflict w p = ResolveConflict w p"

section \<open>Atomic mover\<close>

datatype moveError = PreMoveHash errno | CopyFailed errno | PostMoveHash errno | IntegrityFailed

text \<open>
  The end of \<open>AtomicMove\<close>, which both branches reach: hash the destination and compare it
  with the hash \<open>sh\<close> taken from the source before the move.
\<close>

definition AtomicMove_verify ::
  "(bytes \<Rightarrow> 'h) \<Rightarrow> world \<Rightarrow> 'h \<Rightarrow> path \<Rightarrow> (moveError + unit) \<times> world" where
  "AtomicMove_verify H w sh dst =
     (case GetFileHash H w dst of
        (Inl e, w1) \<Rightarrow> (Inl (PostMoveHash e), w1)
      | (Inr th, w1) \<Rightarrow>
          if sh \<noteq> th then (case osRemove w1 dst of (_, w2) \<Rightarrow> (Inl IntegrityFailed, w2))
          else (Inr (), w1))"

definition AtomicMove ::
  "(bytes \<Rightarrow> 'h) \<Rightarrow> world \<Rightarrow> path \<Rightarrow> path \<Rightarrow> (moveError + unit) \<times> world" where
  "AtomicMove H w src dst =
     (case GetFileHash H w src of
        (Inl e, w1) \<Rightarrow> (Inl (PreMoveHash e), w1)
      | (Inr sh, w1) \<Rightarrow>
          (case osRename w1 src dst of
             (Inr _, w2) \<Rightarrow> AtomicMove_verify H w2 sh dst
           | (Inl _, w2) \<Rightarrow>
               (case CopyFile w2 src dst of
                  (Inl e, w3) \<Rightarrow> (Inl (CopyFailed e), w3)
                | (Inr _, w3) \<Rightarrow>
                    (case osRemove w3 src of (_, w4) \<Rightarrow> AtomicMove_verify H w4 sh dst))))"

text \<open>
  The move of the command-line variant (the end of the walk function of \<open>main\<close>); the
  result is which of the two counters, \<open>success\<close> or \<open>errors\<close>, goes up.
\<close>

datatype tally = Success | Errors

definition main_move :: "(bytes \<Rightarrow> 'h) \<Rightarrow> world \<Rightarrow> path \<Rightarrow> path \<Rightarrow> tally \<times> world" where
  "main_move H w p targetPath =
     (case osRename w p targetPath of
        (Inr _, w1) \<Rightarrow> (Success, w1)
      | (Inl _, w1) \<Rightarrow>
          (case copyFile w1 p targetPath of
             (Inl e, w2) \<Rightarrow> (Errors, w2)
           | (Inr _, w2) \<Rightarrow>
               (case fileHash H w2 p of
                  (r1, w3) \<Rightarrow>
                    (case fileHash H w3 targetPath of
                       (r2, w4) \<Rightarrow>
                         if (case (r1, r2) of (Inr srcHash, Inr dstHash) \<Rightarrow> srcHash \<noteq> dstHash
                             | _ \<Rightarrow> True)
                         then (case osRemove w4 targetPath of (_, w5) \<Rightarrow> (Errors, w5))
                         else (case osRemove w4 p of (_, w5) \<Rightarrow> (Success, w5))))))"

section \<open>Notions used in the statements\<close>

text \<open>The environment has no fault in store for the next \<open>n\<close> calls.\<close>

definition faultFree :: "nat \<Rightarrow> world \<Rightarrow> bool" where
  "faultFree n w = list_all (\<lambda>f. f = NoFault) (take n (pending w))"

text \<open>The calls made between the state \<open>w\<close> and the later state \<open>w'\<close>.\<close>

definition newCalls :: "world \<Rightarrow> world \<Rightarrow> (oscall \<times> bool) list" where
  "newCalls w w' = drop (length (trace w)) (trace w')"

text \<open>The \<open>i\<close>-th candidate of \<open>ResolveConflict\<close> for the path \<open>p\<close>.\<close>

definition suffixed :: "string \<Rightarrow> nat \<Rightarrow> string" where
  "suffixed p i = candidate (TrimSuffix p (Ext p)) (Ext p) i"

text \<open>
  What the loop over \<open>invalidChars\<close> in \<open>SanitizeFolderName\<close> does to one byte.
\<close>

definition underscored :: "char \<Rightarrow> char" where
  "underscored c = (if c \<in> set invalidChars then CHR ''_'' else c)"

text \<open>The fault the environment has in store for the call after the next \<open>n\<close> calls.\<close>

definition faultAt :: "world \<Rightarrow> nat \<Rightarrow> fault" where
  "faultAt w n = (case drop n (pending w) of [] \<Rightarrow> NoFault | f # _ \<Rightarrow> f)"

text \<open>
  The \<open>j\<close>-th probe of \<open>ResolveConflict\<close>, started in the state \<open>w\<close>, reports that its
  candidate does not exist: the \<open>Stat\<close> meets no fault and there is no such file. A
  \<open>Stat\<close> that fails for another reason reports nothing of the kind.
\<close>

definition reportsMissing :: "world \<Rightarrow> string \<Rightarrow> nat \<Rightarrow> bool" where
  "reportsMissing w p j = (faultAt w (j - 1) = NoFault \<and> files w (suffixed p j) = None)"

text \<open>
  The extension of a path in the words of the documentation of \<open>filepath.Ext\<close>: the
  suffix that begins at the final dot of the final element of the path, empty when that
  element has no dot.
\<close>

definition lastElement :: "string \<Rightarrow> string" where
  "lastElement p = rev (takeWhile (\<lambda>c. \<not> IsPathSeparator c) (rev p))"

definition Ext_spec :: "string \<Rightarrow> string" where
  "Ext_spec p =
     (if CHR ''.'' \<in> set (lastElement p)
      then CHR ''.'' # rev (takeWhile (\<lambda>c. c \<noteq> CHR ''.'') (rev (lastElement p)))
      else '''')"

text \<open>The number a string of decimal digits stands for.\<close>

definition decimalValue :: "string \<Rightarrow> nat" where
  "decimalValue s = foldl (\<lambda>v c. 10 * v + (of_char c - 48)) 0 s"

definition isDigit :: "char \<Rightarrow> bool" where
  "isDigit c = (c \<in> set ''0123456789'')"

section \<open>Properties of the path sanitizer\<close>

text \<open>The table of \<open>TestSanitizeFolderName\<close>: the model passes the repository's own test.\<close>

lemma TestSanitizeFolderName:
  "SanitizeFolderName ''CON'' = ''CON_safe''"
  "SanitizeFolderName ''PRN'' = ''PRN_safe''"
  "SanitizeFolderName ''AUX'' = ''AUX_safe''"
  "SanitizeFolderName ''NUL'' = ''NUL_safe''"
  "SanitizeFolderName ''COM1'' = ''COM1_safe''"
  "SanitizeFolderName ''LPT1'' = ''LPT1_safe''"
  "SanitizeFolderName ''my<file>'' = ''my_file_''"
  "SanitizeFolderName ''folder/path'' = ''folder_path''"
  "SanitizeFolderName ''file:name'' = ''file_name''"
  "SanitizeFolderName ''  trim  '' = ''trim''"
  "SanitizeFolderName '''' = ''Unknown''"
  "SanitizeFolderName ''.'' = ''Unknown''"
  "SanitizeFolderName ''..'' = ''Unknown''"
  "SanitizeFolderName (''a'' @ replicate 150 (CHR ''b'')) = ''a'' @ replicate 99 (CHR ''b'')"
  by code_simp+

text \<open>
  C6, at the input \<open>COM2\<close>: the name is a reserved device name (the validator of the same
  repository lists it, with COM3, LPT2 and LPT3), and the sanitizer returns it unchanged,
  without \<open>_safe\<close>; its table holds CON, PRN, AUX, NUL, COM1 and LPT1 only.
\<close>

theorem sanitize_COM2_unchanged:
  "SanitizeFolderName ''COM2'' = ''COM2'' \<and> SanitizeFolderName ''lpt3'' = ''lpt3''"
  by code_simp

text \<open>
  What holds of C6: the empty name, \<open>.\<close> and \<open>..\<close> give \<open>Unknown\<close>, and a name that is in
  the table after trimming, replacement and upper-casing gets \<open>_safe\<close>.
\<close>

lemma sanitize_dots:
  "TrimSpace x = '''' \<or> TrimSpace x = ''.'' \<or> TrimSpace x = ''..'' \<Longrightarrow>
     SanitizeFolderName x = ''Unknown''"
  by (auto simp: SanitizeFolderName_def)

lemma sanitize_listed:
  assumes "ToUpper (foldl (\<lambda>name c. ReplaceAll name c (CHR ''_'')) (TrimSpace x) invalidChars)
             \<in> {''CON'', ''PRN'', ''AUX'', ''NUL'', ''COM1'', ''LPT1''}"
  shows "SanitizeFolderName x =
           foldl (\<lambda>name c. ReplaceAll name c (CHR ''_'')) (TrimSpace x) invalidChars @ ''_safe''"
proof -
  let ?n = "foldl (\<lambda>name c. ReplaceAll name c (CHR ''_'')) (TrimSpace x) invalidChars"
  from assms have res: "lookupBool reserved (ToUpper ?n)"
    by (auto simp: lookupBool_def reserved_def)
  have len: "length ?n = length (TrimSpace x)"
    by (simp add: invalidChars_def ReplaceAll_def)
  from assms have "3 \<le> length (ToUpper ?n)"
    by auto
  with len have "3 \<le> length (TrimSpace x)"
    by (simp add: ToUpper_def)
  then have "TrimSpace x \<noteq> '''' \<and> TrimSpace x \<noteq> ''.'' \<and> TrimSpace x \<noteq> ''..''"
    by auto
  with res show ?thesis
    by (simp add: SanitizeFolderName_def Let_def)
qed

subsection \<open>Sanitizing twice\<close>

lemma replace_loop:
  "foldl (\<lambda>name c. ReplaceAll name c (CHR ''_'')) s invalidChars = map underscored s"
  by (induction s) (auto simp: ReplaceAll_def invalidChars_def underscored_def)

lemma underscored_valid: "underscored c \<notin> set invalidChars"
  by (simp add: underscored_def invalidChars_def)

lemma underscored_id: "c \<notin> set invalidChars \<Longrightarrow> underscored c = c"
  by (simp add: underscored_def)

lemma map_underscored_id: "set s \<inter> set invalidChars = {} \<Longrightarrow> map underscored s = s"
  by (induction s) (auto simp: underscored_id)

lemma reserved_length: "lookupBool reserved u \<Longrightarrow> length u \<le> 4 \<and> 3 \<le> length u"
  by (auto simp: lookupBool_def reserved_def split: option.splits if_splits)

lemma sanitize_trimmed:
  "SanitizeFolderName y =
     (if y = '''' \<or> y = ''.'' \<or> y = ''..'' then ''Unknown''
      else if lookupBool reserved (ToUpper (map underscored y)) then map underscored y @ ''_safe''
      else if length y > 100 then take 100 (map underscored y)
      else map underscored y)" if "TrimSpace y = y"
  by (simp add: SanitizeFolderName_def that replace_loop Let_def)

lemma sanitize_fixed:
  assumes "TrimSpace y = y" and "y \<noteq> ''''" and "set y \<inter> set invalidChars = {}"
    and "\<not> lookupBool reserved (ToUpper y)" and "length y \<le> 100"
  shows "SanitizeFolderName y = y"
proof -
  from assms(3) have "CHR ''.'' \<notin> set y"
    by (auto simp: invalidChars_def)
  then have "y \<noteq> ''.''" "y \<noteq> ''..''"
    by auto
  with assms show ?thesis
    by (simp add: sanitize_trimmed [OF assms(1)] map_underscored_id)
qed

lemma sanitize_cases:
  "SanitizeFolderName x = ''Unknown'' \<or>
   (\<exists>n. n \<noteq> '''' \<and> lookupBool reserved (ToUpper (map underscored n)) \<and>
        SanitizeFolderName x = map underscored n @ ''_safe'') \<or>
   (\<exists>n. length n > 100 \<and> SanitizeFolderName x = take 100 (map underscored n)) \<or>
   (\<exists>n. n \<noteq> '''' \<and> length n \<le> 100 \<and> \<not> lookupBool reserved (ToUpper (map underscored n)) \<and>
        SanitizeFolderName x = map underscored n)"
  by (auto simp: SanitizeFolderName_def replace_loop Let_def)

lemma sanitize_Unknown: "SanitizeFolderName ''Unknown'' = ''Unknown''"
  by code_simp

lemma sanitize_output:
  "SanitizeFolderName x \<noteq> '''' \<and> set (SanitizeFolderName x) \<inter> set invalidChars = {} \<and>
   \<not> lookupBool reserved (ToUpper (SanitizeFolderName x)) \<and> length (SanitizeFolderName x) \<le> 100"
proof -
  have safe: "set ''_safe'' \<inter> set invalidChars = {}" "set ''Unknown'' \<inter> set invalidChars = {}"
    by (simp_all add: invalidChars_def)
  have und: "set (map underscored n) \<inter> set invalidChars = {}" for n
    using underscored_valid by auto
  have tk: "set (take 100 (map underscored n)) \<inter> set invalidChars = {}" for n
    using und [of n] set_take_subset [of 100 "map underscored n"] by blast
  have long: "\<not> lookupBool reserved (ToUpper u)" if "4 < length u" for u
    using reserved_length [of "ToUpper u"] that by (auto simp: ToUpper_def)
  have unk: "\<not> lookupBool reserved (ToUpper ''Unknown'')"
    by (rule long) simp
  from sanitize_cases [of x] show ?thesis
  proof (elim disjE exE conjE)
    assume "SanitizeFolderName x = ''Unknown''"
    with safe(2) unk show ?thesis by simp
  next
    fix n
    assume n: "lookupBool reserved (ToUpper (map underscored n))"
      and s: "SanitizeFolderName x = map underscored n @ ''_safe''"
    from reserved_length [OF n] have "length n \<le> 4"
      by (simp add: ToUpper_def)
    moreover have "\<not> lookupBool reserved (ToUpper (map underscored n @ ''_safe''))"
      by (rule long) simp
    ultimately show ?thesis
      using und [of n] safe(1) by (auto simp: s)
  next
    fix n :: string
    assume n: "length n > 100" and s: "SanitizeFolderName x = take 100 (map underscored n)"
    from n have len: "length (take 100 (map underscored n)) = 100"
      by simp
    then have "\<not> lookupBool reserved (ToUpper (take 100 (map underscored n)))"
      by (intro long) simp
    moreover from len have "take 100 (map underscored n) \<noteq> ''''"
      by auto
    ultimately show ?thesis
      using tk [of n] len by (simp add: s)
  next
    fix n :: string
    assume "n \<noteq> ''''" "length n \<le> 100" "\<not> lookupBool reserved (ToUpper (map underscored n))"
      "SanitizeFolderName x = map underscored n"
    then show ?thesis
      using und [of n] by simp
  qed
qed

lemma sanitize_idem_if_trimmed:
  assumes "TrimSpace (SanitizeFolderName x) = SanitizeFolderName x"
  shows "SanitizeFolderName (SanitizeFolderName x) = SanitizeFolderName x"
  using sanitize_output [of x] by (intro sanitize_fixed [OF assms]) simp_all

lemma leadingRune_None_iff:
  "leadingRune toks s = None \<longleftrightarrow> (\<forall>t \<in> set toks. t = [] \<or> take (length t) s \<noteq> t)"
  by (auto simp: leadingRune_def find_None_iff)

lemma stripRunes_fixed: "leadingRune toks s = None \<Longrightarrow> stripRunes toks s = s"
  by simp

lemma stripRunes_stripped: "leadingRune toks (stripRunes toks s) = None"
proof (induction toks s rule: stripRunes.induct)
  case (1 toks s)
  show ?case
  proof (cases "leadingRune toks s")
    case None
    then show ?thesis by simp
  next
    case (Some t)
    with "1.IH" [OF Some] show ?thesis by simp
  qed
qed

lemma stripRunes_drop: "\<exists>n. stripRunes toks s = drop n s"
proof (induction toks s rule: stripRunes.induct)
  case (1 toks s)
  show ?case
  proof (cases "leadingRune toks s")
    case None
    then have "stripRunes toks s = drop 0 s" by simp
    then show ?thesis ..
  next
    case (Some t)
    from "1.IH" [OF Some] obtain n where "stripRunes toks (drop (length t) s) = drop n (drop (length t) s)"
      by blast
    with Some have "stripRunes toks s = drop (n + length t) s"
      by (simp add: add.commute)
    then show ?thesis ..
  qed
qed

lemma leadingRune_take:
  assumes "leadingRune toks s = None"
  shows "leadingRune toks (take n s) = None"
  unfolding leadingRune_None_iff
proof (intro ballI)
  fix t
  assume t: "t \<in> set toks"
  show "t = [] \<or> take (length t) (take n s) \<noteq> t"
  proof (rule disjCI)
    assume "\<not> take (length t) (take n s) \<noteq> t"
    then have eq: "take (length t) (take n s) = t" by simp
    then have "length t \<le> n"
      by (metis length_take min.cobounded1 min.cobounded2 order_trans)
    with eq have "take (length t) s = t"
      by (simp add: min_def)
    with assms t show "t = []"
      by (auto simp: leadingRune_None_iff)
  qed
qed

lemma TrimSpace_fixed:
  assumes "leadingRune spaceRunes s = None" and "leadingRune (map rev spaceRunes) (rev s) = None"
  shows "TrimSpace s = s"
  using assms by (simp add: TrimSpace_def TrimLeft_def TrimRight_def)

lemma TrimSpace_trimmed:
  "leadingRune spaceRunes (TrimSpace x) = None \<and>
   leadingRune (map rev spaceRunes) (rev (TrimSpace x)) = None"
proof -
  let ?l = "TrimLeft x"
  have lead: "leadingRune spaceRunes ?l = None"
    by (simp add: TrimLeft_def stripRunes_stripped del: stripRunes.simps)
  obtain n where "stripRunes (map rev spaceRunes) (rev ?l) = drop n (rev ?l)"
    using stripRunes_drop by blast
  then have "TrimSpace x = take (length ?l - n) ?l"
    by (simp add: TrimSpace_def TrimRight_def rev_drop del: stripRunes.simps)
  with lead have "leadingRune spaceRunes (TrimSpace x) = None"
    by (simp add: leadingRune_take)
  moreover have "leadingRune (map rev spaceRunes) (rev (TrimSpace x)) = None"
    by (simp add: TrimSpace_def TrimRight_def stripRunes_stripped del: stripRunes.simps)
  ultimately show ?thesis ..
qed

lemma map_underscored_eq:
  "map underscored u = t \<Longrightarrow> CHR ''_'' \<notin> set t \<Longrightarrow> u = t"
proof (induction u arbitrary: t)
  case Nil
  then show ?case by simp
next
  case (Cons c u)
  then obtain d t' where t: "t = d # t'" "underscored c = d" "map underscored u = t'"
    by auto
  with Cons.prems(2) have "d \<noteq> CHR ''_''" "CHR ''_'' \<notin> set t'"
    by auto
  with t Cons.IH [of t'] show ?case
    by (auto simp: underscored_def split: if_splits)
qed

lemma leadingRune_underscored:
  assumes "leadingRune toks s = None" and "\<forall>t \<in> set toks. CHR ''_'' \<notin> set t"
  shows "leadingRune toks (map underscored s) = None"
  unfolding leadingRune_None_iff
proof (intro ballI)
  fix t
  assume t: "t \<in> set toks"
  show "t = [] \<or> take (length t) (map underscored s) \<noteq> t"
  proof (rule disjCI)
    assume "\<not> take (length t) (map underscored s) \<noteq> t"
    then have "map underscored (take (length t) s) = t"
      by (simp add: take_map)
    moreover from assms(2) t have "CHR ''_'' \<notin> set t"
      by simp
    ultimately have "take (length t) s = t"
      by (rule map_underscored_eq)
    with assms(1) t show "t = []"
      by (auto simp: leadingRune_None_iff)
  qed
qed

lemma spaceRunes_no_underscore:
  "\<forall>t \<in> set spaceRunes. CHR ''_'' \<notin> set t" "\<forall>t \<in> set (map rev spaceRunes). CHR ''_'' \<notin> set t"
  by (simp_all add: spaceRunes_def)

lemma spaceRunes_short: "\<forall>t \<in> set spaceRunes. length t \<le> 3"
  by (simp add: spaceRunes_def)

lemma leadingRune_append:
  assumes "leadingRune spaceRunes n = None" and "3 \<le> length n"
  shows "leadingRune spaceRunes (n @ z) = None"
  unfolding leadingRune_None_iff
proof (intro ballI)
  fix t
  assume t: "t \<in> set spaceRunes"
  with spaceRunes_short assms(2) have "length t \<le> length n"
    by force
  then have "take (length t) (n @ z) = take (length t) n"
    by simp
  with assms(1) t show "t = [] \<or> take (length t) (n @ z) \<noteq> t"
    by (auto simp: leadingRune_None_iff)
qed

lemma no_rune_ends_in_e: "leadingRune (map rev spaceRunes) (CHR ''e'' # s) = None"
  by (simp add: leadingRune_def spaceRunes_def)

lemma TrimSpace_Unknown: "TrimSpace ''Unknown'' = ''Unknown''"
  by code_simp

lemma sanitize_short_trimmed:
  assumes "length (TrimSpace x) \<le> 100"
  shows "TrimSpace (SanitizeFolderName x) = SanitizeFolderName x"
proof -
  let ?n = "TrimSpace x"
  let ?u = "map underscored ?n"
  from TrimSpace_trimmed [of x] have
    lead: "leadingRune spaceRunes ?u = None"
    by (intro leadingRune_underscored spaceRunes_no_underscore) simp
  from TrimSpace_trimmed [of x] have
    "leadingRune (map rev spaceRunes) (map underscored (rev ?n)) = None"
    by (intro leadingRune_underscored spaceRunes_no_underscore) simp
  then have trail: "leadingRune (map rev spaceRunes) (rev ?u) = None"
    by (simp add: rev_map)
  show ?thesis
  proof (cases "?n = '''' \<or> ?n = ''.'' \<or> ?n = ''..''")
    case True
    then have "SanitizeFolderName x = ''Unknown''"
      by (auto simp: SanitizeFolderName_def)
    then show ?thesis
      by (simp add: TrimSpace_Unknown)
  next
    case False
    show ?thesis
    proof (cases "lookupBool reserved (ToUpper ?u)")
      case True
      with False have s: "SanitizeFolderName x = ?u @ ''_safe''"
        by (simp add: SanitizeFolderName_def replace_loop Let_def)
      from reserved_length [OF True] have "3 \<le> length ?u"
        by (simp add: ToUpper_def)
      with lead have "leadingRune spaceRunes (?u @ ''_safe'') = None"
        by (rule leadingRune_append)
      moreover have "leadingRune (map rev spaceRunes) (rev (?u @ ''_safe'')) = None"
        using no_rune_ends_in_e [of "''fas_'' @ rev ?u"] by simp
      ultimately show ?thesis
        unfolding s by (rule TrimSpace_fixed)
    next
      case notres: False
      with False assms have s: "SanitizeFolderName x = ?u"
        by (simp add: SanitizeFolderName_def replace_loop Let_def)
      from lead trail show ?thesis
        unfolding s by (rule TrimSpace_fixed)
    qed
  qed
qed

text \<open>
  C5, at a name of 99 letters, a space and one more letter: the name is trimmed first and
  cut to 100 bytes last, so the first pass returns 100 bytes that end with the space, and
  the second pass trims that space away and returns 99 bytes. Sanitizing twice is not
  sanitizing once.
\<close>

theorem sanitize_not_idempotent:
  "SanitizeFolderName (replicate 99 (CHR ''a'') @ '' b'') = replicate 99 (CHR ''a'') @ '' '' \<and>
   SanitizeFolderName (SanitizeFolderName (replicate 99 (CHR ''a'') @ '' b'')) =
     replicate 99 (CHR ''a'') \<and>
   SanitizeFolderName (SanitizeFolderName (replicate 99 (CHR ''a'') @ '' b'')) \<noteq>
     SanitizeFolderName (replicate 99 (CHR ''a'') @ '' b'')"
  by code_simp

text \<open>
  What holds of C5: the result has at most 100 bytes, and sanitizing it again changes
  nothing for every name whose trimmed form has at most 100 bytes, and for every longer
  name whose result does not end with white space.
\<close>

lemma sanitize_idempotent_short:
  "length (SanitizeFolderName x) \<le> 100 \<and>
   (length (TrimSpace x) \<le> 100 \<longrightarrow>
      SanitizeFolderName (SanitizeFolderName x) = SanitizeFolderName x) \<and>
   (TrimSpace (SanitizeFolderName x) = SanitizeFolderName x \<longrightarrow>
      SanitizeFolderName (SanitizeFolderName x) = SanitizeFolderName x)"
  using sanitize_output [of x] sanitize_idem_if_trimmed [of x] sanitize_short_trimmed [of x]
  by blast

section \<open>Properties of the source classifier\<close>

text \<open>
  C4, at the file name of a screenshot taken in Instagram: it contains the patterns
  \<open>screenshot\<close> and \<open>instagram\<close>, and two runs of the loop that visit the same entries in
  different orders return different labels.
\<close>

theorem DetectSource_order_dependent:
  "set (rev patterns) = set patterns \<and>
   DetectSource patterns ''Screenshot_20230101-120000_Instagram.jpg'' = ''Screenshots'' \<and>
   DetectSource (rev patterns) ''Screenshot_20230101-120000_Instagram.jpg'' = ''Instagram''"
  by code_simp

section \<open>Properties of the destination category\<close>

text \<open>
  C9 as stated fails for a file without a known source whose device label is a single
  dot: the label of the claim is the device alone, \<open>.\<close>, which is neither empty nor
  \<open>Unknown\<close> (the sanitizer would turn it into \<open>Unknown\<close>), and the directory the code
  chooses is \<open>Other_Sorted\<close>.
\<close>

theorem category_counterexample:
  "MoveFile_device
     \<lparr>Path = ''/in/x.jpg'', Filename = ''x.jpg'', Size = 1, Year = ''2022'', Month = ''05'',
      Device = ''.'', Source = ''Other_Imports'', MD5 = ''''\<rparr> \<noteq>
     categoryLabel_spec ''Other_Imports'' ''.'' \<and>
   MoveFile_device
     \<lparr>Path = ''/in/x.jpg'', Filename = ''x.jpg'', Size = 1, Year = ''2022'', Month = ''05'',
      Device = ''.'', Source = ''Other_Imports'', MD5 = ''''\<rparr> \<noteq>
     SanitizeFolderName (categoryLabel_spec ''Other_Imports'' ''.'')"
  by code_simp

text \<open>
  C9, amended: the category is the sanitized form of the combined label (source and device
  joined by an underscore when the source is known and not the generic fallback and the
  device is informative, the source alone when the device is not, the device alone
  otherwise), and \<open>Other_Sorted\<close> when that sanitized form is \<open>Unknown\<close>; it is never empty
  and never \<open>Unknown\<close>.
\<close>

theorem category_is_sanitized_label:
  "MoveFile_device info =
     (let s = SanitizeFolderName (combinedLabel (Source info) (Device info))
      in if s = ''Unknown'' \<or> s = '''' then ''Other_Sorted'' else s) \<and>
   MoveFile_device info \<noteq> ''Unknown'' \<and> MoveFile_device info \<noteq> ''''"
  by (simp add: MoveFile_device_def combinedLabel_def Let_def)

section \<open>Properties of the atomic mover\<close>

text \<open>
  C1, at a move across volumes whose copy succeeds and whose destination cannot be opened
  afterwards: the rename fails, the file is copied, the source is removed, and only then
  does \<open>AtomicMove\<close> try to hash the destination. The source is gone and no hash of the
  destination was ever computed.
\<close>

theorem AtomicMove_removes_source_before_hash:
  "let r = AtomicMove (\<lambda>bs. bs)
             \<lparr>files = [''/src/a.jpg'' \<mapsto> ''data''],
              pending = [NoFault, NoFault, Fail, NoFault, NoFault, NoFault, NoFault, NoFault,
                         Fail],
              trace = []\<rparr>
             ''/src/a.jpg'' ''/dst/a.jpg''
   in fst r = Inl (PostMoveHash EIO) \<and>
      files (snd r) ''/src/a.jpg'' = None \<and>
      trace (snd r) =
        [(Open ''/src/a.jpg'', True), (ReadAll ''/src/a.jpg'', True),
         (Rename ''/src/a.jpg'' ''/dst/a.jpg'', False),
         (Open ''/src/a.jpg'', True), (Create ''/dst/a.jpg'', True),
         (CopyData ''/src/a.jpg'' ''/dst/a.jpg'', True), (Sync ''/dst/a.jpg'', True),
         (Remove ''/src/a.jpg'', True),
         (Open ''/dst/a.jpg'', False)]"
  by code_simp

text \<open>
  C2, at a move across volumes whose copy loses the last byte: the hashes differ, the
  destination is deleted and the integrity error is returned, but the source was removed
  before the comparison, so neither file is left.
\<close>

theorem AtomicMove_mismatch_loses_source:
  "let r = AtomicMove (\<lambda>bs. bs)
             \<lparr>files = [''/src/b.jpg'' \<mapsto> ''data''],
              pending = [NoFault, NoFault, Fail, NoFault, NoFault, Garble ''dat''],
              trace = []\<rparr>
             ''/src/b.jpg'' ''/dst/b.jpg''
   in fst r = Inl IntegrityFailed \<and>
      files (snd r) ''/dst/b.jpg'' = None \<and>
      files (snd r) ''/src/b.jpg'' = None"
  by code_simp

section \<open>Calls and their traces\<close>

lemma faultFree_next: "faultFree (Suc n) w \<Longrightarrow> nextFault w = NoFault"
  by (cases "pending w") (auto simp: faultFree_def nextFault_def)

lemma faultFree_logged: "faultFree (Suc n) w \<Longrightarrow> faultFree n (logged w c ok fs)"
  by (cases "pending w") (auto simp: faultFree_def logged_def)

lemma osStat_calls: "osStat w p = (r, w') \<Longrightarrow> trace w' = trace w @ [(Stat p, isOk r)]"
  by (auto simp: osStat_def logged_def Let_def)

lemma osOpen_calls: "osOpen w p = (r, w') \<Longrightarrow> trace w' = trace w @ [(Open p, isOk r)]"
  by (auto simp: osOpen_def logged_def Let_def)

lemma ioReadAll_calls: "ioReadAll w p = (r, w') \<Longrightarrow> trace w' = trace w @ [(ReadAll p, isOk r)]"
  by (auto simp: ioReadAll_def logged_def Let_def)

lemma GetFileHash_calls:
  "GetFileHash H w p = (r, w') \<Longrightarrow> \<exists>evs. trace w' = trace w @ evs \<and> list_all snd evs = isOk r"
  by (auto simp: GetFileHash_def isOk_def split: prod.splits sum.splits
      dest!: osOpen_calls ioReadAll_calls)

lemma osStat_run:
  assumes "faultFree (Suc n) w" and "files w p = Some c"
  shows "\<exists>w'. osStat w p = (Inr (int (length c)), w') \<and> files w' = files w \<and>
           trace w' = trace w @ [(Stat p, True)] \<and> faultFree n w'"
  using assms faultFree_logged [OF assms(1)]
  by (simp add: osStat_def faultFree_next isOk_def) (simp add: logged_def)

lemma osOpen_run:
  assumes "faultFree (Suc n) w" and "files w p = Some c"
  shows "\<exists>w'. osOpen w p = (Inr (), w') \<and> files w' = files w \<and>
           trace w' = trace w @ [(Open p, True)] \<and> faultFree n w'"
  using assms faultFree_logged [OF assms(1)]
  by (simp add: osOpen_def faultFree_next isOk_def) (simp add: logged_def)

lemma ioReadAll_run:
  assumes "faultFree (Suc n) w" and "files w p = Some c"
  shows "\<exists>w'. ioReadAll w p = (Inr c, w') \<and> files w' = files w \<and>
           trace w' = trace w @ [(ReadAll p, True)] \<and> faultFree n w'"
  using assms faultFree_logged [OF assms(1)]
  by (simp add: ioReadAll_def faultFree_next isOk_def) (simp add: logged_def)

lemma GetFileHash_run:
  assumes "faultFree (Suc (Suc n)) w" and "files w p = Some c"
  shows "\<exists>w'. GetFileHash H w p = (Inr (H c), w') \<and> files w' = files w \<and>
           trace w' = trace w @ [(Open p, True), (ReadAll p, True)] \<and> faultFree n w'"
proof -
  from osOpen_run [OF assms] obtain w1 where
    1: "osOpen w p = (Inr (), w1)" "files w1 = files w"
       "trace w1 = trace w @ [(Open p, True)]" "faultFree (Suc n) w1"
    by blast
  from 1(2) assms(2) have "files w1 p = Some c" by simp
  from ioReadAll_run [OF 1(4) this] obtain w2 where
    2: "ioReadAll w1 p = (Inr c, w2)" "files w2 = files w1"
       "trace w2 = trace w1 @ [(ReadAll p, True)]" "faultFree n w2"
    by blast
  from 1 2 show ?thesis
    by (simp add: GetFileHash_def)
qed

section \<open>Properties of the duplicate detector\<close>

lemma IsDuplicate_calls:
  "IsDuplicate H w p1 p2 = (r, w') \<Longrightarrow> \<exists>evs. trace w' = trace w @ evs \<and> list_all snd evs = isOk r"
  by (auto simp: IsDuplicate_def isOk_def split: prod.splits sum.splits if_splits
      dest!: osStat_calls GetFileHash_calls)

text \<open>
  C3, at two equal files of which the first cannot be opened: \<open>isDuplicate\<close> of the
  command-line variant answers "not a duplicate" and reports nothing, although its first
  call failed; \<open>IsDuplicate\<close> of the organizer returns the error for the same files.
\<close>

theorem isDuplicate_hides_failure:
  "\<not> fst (isDuplicate (\<lambda>bs. bs)
            \<lparr>files = [''/in/a.jpg'' \<mapsto> ''data'', ''/out/a.jpg'' \<mapsto> ''data''],
             pending = [Fail], trace = []\<rparr>
            ''/in/a.jpg'' ''/out/a.jpg'') \<and>
   trace (snd (isDuplicate (\<lambda>bs. bs)
            \<lparr>files = [''/in/a.jpg'' \<mapsto> ''data'', ''/out/a.jpg'' \<mapsto> ''data''],
             pending = [Fail], trace = []\<rparr>
            ''/in/a.jpg'' ''/out/a.jpg'')) =
     [(Open ''/in/a.jpg'', False), (Open ''/out/a.jpg'', True), (ReadAll ''/out/a.jpg'', True)] \<and>
   fst (IsDuplicate (\<lambda>bs. bs)
            \<lparr>files = [''/in/a.jpg'' \<mapsto> ''data'', ''/out/a.jpg'' \<mapsto> ''data''],
             pending = [NoFault, NoFault, Fail], trace = []\<rparr>
            ''/in/a.jpg'' ''/out/a.jpg'') = Inl (HashSrc EIO)"
  by code_simp

text \<open>
  What holds of C3: \<open>IsDuplicate\<close> of the organizer returns an answer exactly when every
  call it made (stat, open, read) succeeded, and an error otherwise.
\<close>

lemma IsDuplicate_answers_iff_calls_succeed:
  "isOk (fst (IsDuplicate H w p1 p2)) = list_all snd (newCalls w (snd (IsDuplicate H w p1 p2)))"
proof -
  obtain r w' where run: "IsDuplicate H w p1 p2 = (r, w')"
    by (cases "IsDuplicate H w p1 p2")
  from IsDuplicate_calls [OF run] show ?thesis
    by (auto simp: run newCalls_def)
qed

text \<open>
  The command-line \<open>isDuplicate\<close> answers "duplicate" exactly when both hashes were read
  and are equal; every failure reads as "not a duplicate".
\<close>

lemma isDuplicate_answer:
  "fst (isDuplicate H w p1 p2) =
     (\<exists>h. fst (fileHash H w p1) = Inr h \<and>
          fst (fileHash H (snd (fileHash H w p1)) p2) = Inr h)"
  by (auto simp: isDuplicate_def split: prod.splits sum.splits)

text \<open>
  C7: for two existing files, when no call fails. With unequal sizes the answer is "not a
  duplicate" and the only calls are the two \<open>Stat\<close>s: nothing is opened or read. With
  equal sizes both files are opened and read whole, and the answer is "duplicate" exactly
  when the two hashes are equal.
\<close>

theorem IsDuplicate_sizes_then_hashes:
  assumes "files w p1 = Some c1" and "files w p2 = Some c2"
  shows "(length c1 \<noteq> length c2 \<and> faultFree 2 w \<longrightarrow>
            fst (IsDuplicate H w p1 p2) = Inr False \<and>
            newCalls w (snd (IsDuplicate H w p1 p2)) = [(Stat p1, True), (Stat p2, True)]) \<and>
         (length c1 = length c2 \<and> faultFree 6 w \<longrightarrow>
            fst (IsDuplicate H w p1 p2) = Inr (H c1 = H c2) \<and>
            newCalls w (snd (IsDuplicate H w p1 p2)) =
              [(Stat p1, True), (Stat p2, True), (Open p1, True), (ReadAll p1, True),
               (Open p2, True), (ReadAll p2, True)])"
proof (intro conjI impI; elim conjE)
  assume ne: "length c1 \<noteq> length c2" and ff: "faultFree 2 w"
  from ff have "faultFree (Suc (Suc 0)) w" by (simp add: numeral_2_eq_2)
  from osStat_run [OF this assms(1)] obtain w1 where
    1: "osStat w p1 = (Inr (int (length c1)), w1)" "files w1 = files w"
       "trace w1 = trace w @ [(Stat p1, True)]" "faultFree (Suc 0) w1"
    by blast
  from 1(2) assms(2) have "files w1 p2 = Some c2" by simp
  from osStat_run [OF 1(4) this] obtain w2 where
    2: "osStat w1 p2 = (Inr (int (length c2)), w2)" "files w2 = files w1"
       "trace w2 = trace w1 @ [(Stat p2, True)]"
    by blast
  from ne 1 2 have run: "IsDuplicate H w p1 p2 = (Inr False, w2)"
    by (simp add: IsDuplicate_def)
  from 1 2 show "fst (IsDuplicate H w p1 p2) = Inr False"
    and "newCalls w (snd (IsDuplicate H w p1 p2)) = [(Stat p1, True), (Stat p2, True)]"
    by (simp_all add: run newCalls_def)
next
  assume eq: "length c1 = length c2" and ff: "faultFree 6 w"
  from ff have "faultFree (Suc (Suc (Suc (Suc (Suc (Suc 0)))))) w"
    by (simp add: eval_nat_numeral)
  from osStat_run [OF this assms(1)] obtain w1 where
    1: "osStat w p1 = (Inr (int (length c1)), w1)" "files w1 = files w"
       "trace w1 = trace w @ [(Stat p1, True)]" "faultFree (Suc (Suc (Suc (Suc (Suc 0))))) w1"
    by blast
  from 1(2) assms(2) have "files w1 p2 = Some c2" by simp
  from osStat_run [OF 1(4) this] obtain w2 where
    2: "osStat w1 p2 = (Inr (int (length c2)), w2)" "files w2 = files w1"
       "trace w2 = trace w1 @ [(Stat p2, True)]" "faultFree (Suc (Suc (Suc (Suc 0)))) w2"
    by blast
  from 1(2) 2(2) assms(1) have "files w2 p1 = Some c1" by simp
  from GetFileHash_run [OF 2(4) this, of H] obtain w3 where
    3: "GetFileHash H w2 p1 = (Inr (H c1), w3)" "files w3 = files w2"
       "trace w3 = trace w2 @ [(Open p1, True), (ReadAll p1, True)]" "faultFree (Suc (Suc 0)) w3"
    by blast
  from 1(2) 2(2) 3(2) assms(2) have "files w3 p2 = Some c2" by simp
  from GetFileHash_run [OF 3(4) this, of H] obtain w4 where
    4: "GetFileHash H w3 p2 = (Inr (H c2), w4)"
       "trace w4 = trace w3 @ [(Open p2, True), (ReadAll p2, True)]"
    by blast
  from eq 1 2 3 4 have run: "IsDuplicate H w p1 p2 = (Inr (H c1 = H c2), w4)"
    by (simp add: IsDuplicate_def)
  from 1 2 3 4 show "fst (IsDuplicate H w p1 p2) = Inr (H c1 = H c2)"
    and "newCalls w (snd (IsDuplicate H w p1 p2)) =
              [(Stat p1, True), (Stat p2, True), (Open p1, True), (ReadAll p1, True),
               (Open p2, True), (ReadAll p2, True)]"
    by (simp_all add: run newCalls_def)
qed

text \<open>
  C7 at three pairs of files: sizes 4 and 10 (two calls, both \<open>Stat\<close>), equal content,
  and equal size with different content.
\<close>

theorem IsDuplicate_sizes_then_hashes_witness:
  "fst (IsDuplicate (\<lambda>bs. bs)
          \<lparr>files = [''/in/a.jpg'' \<mapsto> ''data'', ''/out/a.jpg'' \<mapsto> ''other data''],
           pending = [], trace = []\<rparr> ''/in/a.jpg'' ''/out/a.jpg'') = Inr False \<and>
   newCalls \<lparr>files = [''/in/a.jpg'' \<mapsto> ''data'', ''/out/a.jpg'' \<mapsto> ''other data''],
           pending = [], trace = []\<rparr>
     (snd (IsDuplicate (\<lambda>bs. bs)
          \<lparr>files = [''/in/a.jpg'' \<mapsto> ''data'', ''/out/a.jpg'' \<mapsto> ''other data''],
           pending = [], trace = []\<rparr> ''/in/a.jpg'' ''/out/a.jpg'')) =
     [(Stat ''/in/a.jpg'', True), (Stat ''/out/a.jpg'', True)] \<and>
   fst (IsDuplicate (\<lambda>bs. bs)
          \<lparr>files = [''/in/b.jpg'' \<mapsto> ''data'', ''/out/b.jpg'' \<mapsto> ''data''],
           pending = [], trace = []\<rparr> ''/in/b.jpg'' ''/out/b.jpg'') = Inr True \<and>
   fst (IsDuplicate (\<lambda>bs. bs)
          \<lparr>files = [''/in/c.jpg'' \<mapsto> ''data'', ''/out/c.jpg'' \<mapsto> ''date''],
           pending = [], trace = []\<rparr> ''/in/c.jpg'' ''/out/c.jpg'') = Inr False"
proof -
  let ?wa = "\<lparr>files = [''/in/a.jpg'' \<mapsto> ''data'', ''/out/a.jpg'' \<mapsto> ''other data''],
           pending = [], trace = []\<rparr>"
  let ?wb = "\<lparr>files = [''/in/b.jpg'' \<mapsto> ''data'', ''/out/b.jpg'' \<mapsto> ''data''],
           pending = [], trace = []\<rparr>"
  let ?wc = "\<lparr>files = [''/in/c.jpg'' \<mapsto> ''data'', ''/out/c.jpg'' \<mapsto> ''date''],
           pending = [], trace = []\<rparr>"
  have a: "files ?wa ''/in/a.jpg'' = Some ''data''" "files ?wa ''/out/a.jpg'' = Some ''other data''"
    "length ''data'' \<noteq> length ''other data''" "faultFree 2 ?wa"
    by (simp_all add: faultFree_def)
  have b: "files ?wb ''/in/b.jpg'' = Some ''data''" "files ?wb ''/out/b.jpg'' = Some ''data''"
    "faultFree 6 ?wb"
    by (simp_all add: faultFree_def)
  have c: "files ?wc ''/in/c.jpg'' = Some ''data''" "files ?wc ''/out/c.jpg'' = Some ''date''"
    "length ''data'' = length ''date''" "faultFree 6 ?wc"
    by (simp_all add: faultFree_def)
  from IsDuplicate_sizes_then_hashes [OF a(1,2), of "\<lambda>bs. bs"] a(3,4)
    IsDuplicate_sizes_then_hashes [OF b(1,2), of "\<lambda>bs. bs"] b(3)
    IsDuplicate_sizes_then_hashes [OF c(1,2), of "\<lambda>bs. bs"] c(3,4)
  show ?thesis
    by simp
qed

section \<open>Properties of the conflict resolver\<close>

subsection \<open>The names of the candidates\<close>

lemma digit_table:
  "char_of (48 + 0 :: nat) = CHR ''0''" "char_of (48 + 1 :: nat) = CHR ''1''"
  "char_of (48 + 2 :: nat) = CHR ''2''" "char_of (48 + 3 :: nat) = CHR ''3''"
  "char_of (48 + 4 :: nat) = CHR ''4''" "char_of (48 + 5 :: nat) = CHR ''5''"
  "char_of (48 + 6 :: nat) = CHR ''6''" "char_of (48 + 7 :: nat) = CHR ''7''"
  "char_of (48 + 8 :: nat) = CHR ''8''" "char_of (48 + 9 :: nat) = CHR ''9''"
  by code_simp+

lemma digit_char:
  fixes d :: nat
  assumes "d < 10"
  shows "isDigit (char_of (48 + d)) \<and> (d \<noteq> 0 \<longrightarrow> char_of (48 + d) \<noteq> CHR ''0'')"
proof -
  from assms have "d = 0 \<or> d = 1 \<or> d = 2 \<or> d = 3 \<or> d = 4 \<or> d = 5 \<or> d = 6 \<or> d = 7 \<or>
    d = 8 \<or> d = 9"
    by arith
  then show ?thesis
    by (elim disjE; hypsubst; simp only: digit_table; simp add: isDigit_def)
qed

lemma itoa_nonempty: "itoa n \<noteq> []"
  by (subst itoa.simps) simp

lemma itoa_digits: "list_all isDigit (itoa n)"
proof (induction n rule: itoa.induct)
  case (1 n)
  show ?case
  proof (cases "n < 10")
    case True
    then show ?thesis
      by (subst itoa.simps) (simp add: digit_char)
  next
    case False
    with "1.IH" have "list_all isDigit (itoa (n div 10))" by simp
    moreover have "isDigit (char_of (48 + n mod 10))"
      by (simp add: digit_char)
    ultimately show ?thesis
      using False by (subst itoa.simps) simp
  qed
qed

lemma decimalValue_snoc: "decimalValue (s @ [c]) = 10 * decimalValue s + (of_char c - 48)"
  by (simp add: decimalValue_def)

lemma itoa_value: "decimalValue (itoa n) = n"
proof (induction n rule: itoa.induct)
  case (1 n)
  show ?case
  proof (cases "n < 10")
    case True
    then show ?thesis
      by (subst itoa.simps) (simp add: decimalValue_def)
  next
    case False
    with "1.IH" have "decimalValue (itoa (n div 10)) = n div 10" by simp
    moreover have "(48 + n mod 10) mod 256 = 48 + n mod 10"
      by (rule mod_less) (simp add: less_le_trans [OF mod_less_divisor [of 10 n]] add.commute)
    ultimately show ?thesis
      using False by (subst itoa.simps) (simp add: decimalValue_snoc)
  qed
qed

lemma itoa_no_leading_zero: "n \<noteq> 0 \<Longrightarrow> hd (itoa n) \<noteq> CHR ''0''"
proof (induction n rule: itoa.induct)
  case (1 n)
  show ?case
  proof (cases "n < 10")
    case True
    with "1.prems" show ?thesis
      by (subst itoa.simps) (simp add: digit_char)
  next
    case False
    then have "n div 10 \<noteq> 0" by simp
    with "1.IH" False have "hd (itoa (n div 10)) \<noteq> CHR ''0''" by simp
    with False show ?thesis
      by (subst itoa.simps) (simp add: itoa_nonempty)
  qed
qed

lemma extFrom_spec:
  "extFrom xs acc =
     (if CHR ''.'' \<in> set (takeWhile (\<lambda>c. \<not> IsPathSeparator c) xs)
      then CHR ''.'' # rev (takeWhile (\<lambda>c. c \<noteq> CHR ''.'')
             (takeWhile (\<lambda>c. \<not> IsPathSeparator c) xs)) @ acc
      else '''')"
  by (induction xs arbitrary: acc) (auto simp: IsPathSeparator_def)

lemma Ext_is_spec: "Ext p = Ext_spec p"
  by (simp add: Ext_def Ext_spec_def lastElement_def extFrom_spec)

lemma extFrom_suffix: "\<exists>b. rev xs @ acc = b @ extFrom xs acc"
proof (induction xs arbitrary: acc)
  case Nil
  show ?case by simp
next
  case (Cons c cs)
  from Cons.IH [of "c # acc"] show ?case
    by auto
qed

lemma base_ext: "TrimSuffix p (Ext p) @ Ext p = p"
proof -
  from extFrom_suffix [of "rev p" "''''"] obtain b where b: "p = b @ Ext p"
    by (auto simp: Ext_def)
  then have len: "length p = length b + length (Ext p)"
    by (metis length_append)
  with b have "drop (length p - length (Ext p)) p = Ext p"
    and "take (length p - length (Ext p)) p = b"
    by (metis add_diff_cancel_right' append_eq_conv_conj)+
  with b len show ?thesis
    by (simp add: TrimSuffix_def)
qed

subsection \<open>The search\<close>

lemma faultAt_0: "nextFault w = faultAt w 0"
  by (simp add: nextFault_def faultAt_def)

lemma faultAt_logged: "faultAt (logged w c ok fs) n = faultAt w (Suc n)"
  by (simp add: faultAt_def logged_def drop_Suc)

lemma osStat_report:
  "\<exists>r. osStat w q = (r, logged w (Stat q) (isOk r) (files w)) \<and>
       IsNotExist r = (faultAt w 0 = NoFault \<and> files w q = None) \<and>
       isOk r = (faultAt w 0 = NoFault \<and> files w q \<noteq> None)"
  by (auto simp: osStat_def Let_def faultAt_0 IsNotExist_def isOk_def
      split: fault.splits option.splits)

lemma logged_files: "files (logged w c ok fs) = fs"
  by (simp add: logged_def)

lemma logged_trace: "trace (logged w c ok fs) = trace w @ [(c, ok)]"
  by (simp add: logged_def)

lemma resolveFrom_reported:
  assumes "i \<le> k" and "k < 10000"
    and "faultAt w (k - i) = NoFault" and "files w (candidate base ext k) = None"
    and "\<forall>j. i \<le> j \<and> j < k \<longrightarrow>
           \<not> (faultAt w (j - i) = NoFault \<and> files w (candidate base ext j) = None)"
  shows "\<exists>w'. resolveFrom w base ext p i = (candidate base ext k, w') \<and>
           trace w' = trace w @
             map (\<lambda>j. (Stat (candidate base ext j), faultAt w (j - i) = NoFault)) [i..<k] @
             [(Stat (candidate base ext k), False)]"
  using assms
proof (induction "k - i" arbitrary: i w)
  case 0
  then have ik: "i = k" by simp
  from osStat_report [of w "candidate base ext k"] obtain r where
    r: "osStat w (candidate base ext k) = (r, logged w (Stat (candidate base ext k)) (isOk r) (files w))"
       "IsNotExist r = (faultAt w 0 = NoFault \<and> files w (candidate base ext k) = None)"
       "isOk r = (faultAt w 0 = NoFault \<and> files w (candidate base ext k) \<noteq> None)"
    by blast
  from "0.prems"(3,4) ik r(2,3) have "IsNotExist r" "\<not> isOk r"
    by simp_all
  with r(1) "0.prems"(2) show ?case
    by (simp add: resolveFrom.simps [of w base ext p k] ik logged_trace Let_def)
next
  case (Suc d)
  then have lt: "i < k" by simp
  let ?c = "candidate base ext i"
  from osStat_report [of w ?c] obtain r where
    r: "osStat w ?c = (r, logged w (Stat ?c) (isOk r) (files w))"
       "IsNotExist r = (faultAt w 0 = NoFault \<and> files w ?c = None)"
       "isOk r = (faultAt w 0 = NoFault \<and> files w ?c \<noteq> None)"
    by blast
  let ?w1 = "logged w (Stat ?c) (isOk r) (files w)"
  from Suc.prems(5) lt have no: "\<not> (faultAt w 0 = NoFault \<and> files w ?c = None)"
    by (metis diff_self_eq_0 order_refl)
  with r(2,3) have ne: "\<not> IsNotExist r" and ok: "isOk r = (faultAt w 0 = NoFault)"
    by auto
  have shift: "faultAt ?w1 (j - Suc i) = faultAt w (j - i)" if "Suc i \<le> j" for j
  proof -
    from that have "Suc (j - Suc i) = j - i"
      by arith
    then show ?thesis
      by (simp add: faultAt_logged)
  qed
  from Suc.hyps(2) have d: "d = k - Suc i" by simp
  have "\<exists>w'. resolveFrom ?w1 base ext p (Suc i) = (candidate base ext k, w') \<and>
           trace w' = trace ?w1 @
             map (\<lambda>j. (Stat (candidate base ext j), faultAt ?w1 (j - Suc i) = NoFault)) [Suc i..<k] @
             [(Stat (candidate base ext k), False)]"
  proof (rule Suc.hyps(1) [OF d])
    show "Suc i \<le> k" using lt by simp
    show "k < 10000" by (rule Suc.prems(2))
    show "faultAt ?w1 (k - Suc i) = NoFault"
      using lt Suc.prems(3) by (simp add: shift)
    show "files ?w1 (candidate base ext k) = None"
      using Suc.prems(4) by (simp add: logged_files)
    show "\<forall>j. Suc i \<le> j \<and> j < k \<longrightarrow>
           \<not> (faultAt ?w1 (j - Suc i) = NoFault \<and> files ?w1 (candidate base ext j) = None)"
      using Suc.prems(5) by (simp add: shift logged_files)
  qed
  then obtain w' where
    2: "resolveFrom ?w1 base ext p (Suc i) = (candidate base ext k, w')"
       "trace w' = trace ?w1 @
             map (\<lambda>j. (Stat (candidate base ext j), faultAt ?w1 (j - Suc i) = NoFault)) [Suc i..<k] @
             [(Stat (candidate base ext k), False)]"
    by blast
  have maps: "map (\<lambda>j. (Stat (candidate base ext j), faultAt ?w1 (j - Suc i) = NoFault)) [Suc i..<k] =
      map (\<lambda>j. (Stat (candidate base ext j), faultAt w (j - i) = NoFault)) [Suc i..<k]"
    by (rule map_cong) (simp_all add: shift)
  from lt Suc.prems(2) have i: "i < 10000" by simp
  from lt have upt: "[i..<k] = i # [Suc i..<k]"
    by (rule upt_conv_Cons)
  from r(1) ne i 2(1) have "resolveFrom w base ext p i = (candidate base ext k, w')"
    by (simp add: resolveFrom.simps [of w base ext p i] Let_def)
  moreover from 2(2) [unfolded maps] have "trace w' = trace w @
             map (\<lambda>j. (Stat (candidate base ext j), faultAt w (j - i) = NoFault)) [i..<k] @
             [(Stat (candidate base ext k), False)]"
    by (simp add: upt logged_trace ok)
  ultimately show ?case
    by blast
qed

lemma resolveFrom_unreported:
  assumes "\<forall>j. i \<le> j \<and> j < 10000 \<longrightarrow>
           \<not> (faultAt w (j - i) = NoFault \<and> files w (candidate base ext j) = None)"
  shows "fst (resolveFrom w base ext p i) = p"
  using assms
proof (induction "10000 - i" arbitrary: i w)
  case 0
  then show ?case
    by (simp add: resolveFrom.simps [of w base ext p i] Let_def)
next
  case (Suc d)
  then have lt: "i < 10000" by simp
  let ?c = "candidate base ext i"
  from osStat_report [of w ?c] obtain r where
    r: "osStat w ?c = (r, logged w (Stat ?c) (isOk r) (files w))"
       "IsNotExist r = (faultAt w 0 = NoFault \<and> files w ?c = None)"
    by blast
  let ?w1 = "logged w (Stat ?c) (isOk r) (files w)"
  from Suc.prems lt have "\<not> (faultAt w 0 = NoFault \<and> files w ?c = None)"
    by (metis diff_self_eq_0 order_refl)
  with r(2) have ne: "\<not> IsNotExist r"
    by simp
  have shift: "faultAt ?w1 (j - Suc i) = faultAt w (j - i)" if "Suc i \<le> j" for j
  proof -
    from that have "Suc (j - Suc i) = j - i"
      by arith
    then show ?thesis
      by (simp add: faultAt_logged)
  qed
  from Suc.hyps(2) have d: "d = 10000 - Suc i" by simp
  have "fst (resolveFrom ?w1 base ext p (Suc i)) = p"
  proof (rule Suc.hyps(1) [OF d])
    show "\<forall>j. Suc i \<le> j \<and> j < 10000 \<longrightarrow>
           \<not> (faultAt ?w1 (j - Suc i) = NoFault \<and> files ?w1 (candidate base ext j) = None)"
      using Suc.prems by (simp add: shift logged_files)
  qed
  with r(1) ne lt show ?case
    by (simp add: resolveFrom.simps [of w base ext p i] Let_def)
qed

lemma faultAt_replicate: "n < m \<Longrightarrow> faultAt \<lparr>files = fs, pending = replicate m f, trace = t\<rparr> n = f"
proof -
  assume "n < m"
  then obtain d where "m - n = Suc d"
    by (metis Suc_diff_Suc)
  then show ?thesis
    by (simp add: faultAt_def)
qed

text \<open>
  C8 as stated fails when a \<open>Stat\<close> fails for another reason than a missing file, which
  the loop takes for an existing file. With \<open>a.jpg\<close> alone in the directory and the first
  \<open>Stat\<close> failing, \<open>a_1.jpg\<close> does not exist and \<open>a_2.jpg\<close> is returned: not the first
  candidate that does not exist. With every \<open>Stat\<close> failing (a name too long for the file
  system, say), the original path, which exists, is returned although no candidate
  exists.
\<close>

theorem ResolveConflict_skips_after_failed_Stat:
  "fst (ResolveConflict
          \<lparr>files = [''/out/a.jpg'' \<mapsto> ''old''], pending = [Fail], trace = []\<rparr>
          ''/out/a.jpg'') = ''/out/a_2.jpg'' \<and>
   files \<lparr>files = [''/out/a.jpg'' \<mapsto> ''old''], pending = [Fail], trace = []\<rparr>
     ''/out/a_1.jpg'' = None \<and>
   fst (ResolveConflict
          \<lparr>files = [''/out/a.jpg'' \<mapsto> ''old''], pending = replicate 9999 Fail, trace = []\<rparr>
          ''/out/a.jpg'') = ''/out/a.jpg'' \<and>
   files \<lparr>files = [''/out/a.jpg'' \<mapsto> ''old''], pending = replicate 9999 Fail, trace = []\<rparr>
     ''/out/a.jpg'' = Some ''old''"
proof -
  let ?w = "\<lparr>files = [''/out/a.jpg'' \<mapsto> ''old''], pending = replicate 9999 Fail, trace = []\<rparr>"
  have one: "fst (ResolveConflict
          \<lparr>files = [''/out/a.jpg'' \<mapsto> ''old''], pending = [Fail], trace = []\<rparr>
          ''/out/a.jpg'') = ''/out/a_2.jpg''"
    by code_simp
  have "faultAt ?w (j - 1) \<noteq> NoFault" if "1 \<le> j" "j < 10000" for j
  proof -
    from that have "j - 1 < 9999" by arith
    then show ?thesis
      by (simp only: faultAt_replicate) simp
  qed
  then have "\<forall>j. 1 \<le> j \<and> j < 10000 \<longrightarrow>
      \<not> (faultAt ?w (j - 1) = NoFault \<and>
         files ?w (candidate (TrimSuffix ''/out/a.jpg'' (Ext ''/out/a.jpg''))
                    (Ext ''/out/a.jpg'') j) = None)"
    by blast
  then have "fst (resolveFrom ?w (TrimSuffix ''/out/a.jpg'' (Ext ''/out/a.jpg''))
      (Ext ''/out/a.jpg'') ''/out/a.jpg'' 1) = ''/out/a.jpg''"
    by (rule resolveFrom_unreported)
  then have all: "fst (ResolveConflict ?w ''/out/a.jpg'') = ''/out/a.jpg''"
    by (simp add: ResolveConflict_def Let_def)
  from one all show ?thesis
    by simp
qed

text \<open>
  C8, amended. The \<open>k\<close>-th candidate is the path with \<open>_\<close> and the decimal digits of \<open>k\<close>
  put before its extension. The candidates are probed with \<open>Stat\<close> in the order 1, 2, ...,
  and the first one that \<open>Stat\<close> reports as not existing is returned; it does not exist.
  A candidate whose \<open>Stat\<close> fails for another reason is passed over like an existing
  one. When none of the 9999 probes reports a missing file, the original path is
  returned; and the returned path exists only in that case.
\<close>

theorem ResolveConflict_first_reported:
  "suffixed p k = TrimSuffix p (Ext p) @ ''_'' @ itoa k @ Ext p \<and>
   TrimSuffix p (Ext p) @ Ext p = p \<and> Ext p = Ext_spec p \<and>
   list_all isDigit (itoa k) \<and> decimalValue (itoa k) = k \<and> itoa 0 = ''0'' \<and>
   (k \<noteq> 0 \<longrightarrow> hd (itoa k) \<noteq> CHR ''0'') \<and>
   (1 \<le> k \<and> k \<le> 9999 \<and> reportsMissing w p k \<and>
      (\<forall>j. 1 \<le> j \<and> j < k \<longrightarrow> \<not> reportsMissing w p j) \<longrightarrow>
        fst (ResolveConflict w p) = suffixed p k \<and>
        files w (fst (ResolveConflict w p)) = None \<and>
        newCalls w (snd (ResolveConflict w p)) =
          map (\<lambda>j. (Stat (suffixed p j), faultAt w (j - 1) = NoFault)) [1..<k] @
          [(Stat (suffixed p k), False)]) \<and>
   ((\<forall>j. 1 \<le> j \<and> j \<le> 9999 \<longrightarrow> \<not> reportsMissing w p j) \<longrightarrow>
        fst (ResolveConflict w p) = p) \<and>
   (files w (fst (ResolveConflict w p)) \<noteq> None \<longrightarrow>
        fst (ResolveConflict w p) = p \<and>
        (\<forall>j. 1 \<le> j \<and> j \<le> 9999 \<longrightarrow> \<not> reportsMissing w p j))"
proof -
  let ?base = "TrimSuffix p (Ext p)" and ?ext = "Ext p"
  have run: "ResolveConflict w p = resolveFrom w ?base ?ext p 1"
    by (simp add: ResolveConflict_def Let_def)
  have names: "suffixed p k = ?base @ ''_'' @ itoa k @ ?ext"
    by (simp add: suffixed_def candidate_def)
  have found: "fst (ResolveConflict w p) = suffixed p k \<and>
        files w (fst (ResolveConflict w p)) = None \<and>
        newCalls w (snd (ResolveConflict w p)) =
          map (\<lambda>j. (Stat (suffixed p j), faultAt w (j - 1) = NoFault)) [1..<k] @
          [(Stat (suffixed p k), False)]"
    if k: "1 \<le> k" "k \<le> 9999" "reportsMissing w p k"
      "\<forall>j. 1 \<le> j \<and> j < k \<longrightarrow> \<not> reportsMissing w p j" for k
  proof -
    have "\<exists>w'. resolveFrom w ?base ?ext p 1 = (candidate ?base ?ext k, w') \<and>
           trace w' = trace w @
             map (\<lambda>j. (Stat (candidate ?base ?ext j), faultAt w (j - 1) = NoFault)) [1..<k] @
             [(Stat (candidate ?base ?ext k), False)]"
    proof (rule resolveFrom_reported)
      show "1 \<le> k" by (rule k(1))
      show "k < 10000" using k(2) by simp
      show "faultAt w (k - 1) = NoFault" "files w (candidate ?base ?ext k) = None"
        using k(3) by (simp_all add: reportsMissing_def suffixed_def)
      show "\<forall>j. 1 \<le> j \<and> j < k \<longrightarrow>
           \<not> (faultAt w (j - 1) = NoFault \<and> files w (candidate ?base ?ext j) = None)"
        using k(4) by (simp add: reportsMissing_def suffixed_def)
    qed
    with k(3) show ?thesis
      by (auto simp: run newCalls_def suffixed_def reportsMissing_def)
  qed
  have exhausted: "fst (ResolveConflict w p) = p"
    if "\<forall>j. 1 \<le> j \<and> j \<le> 9999 \<longrightarrow> \<not> reportsMissing w p j"
  proof -
    from that have "\<forall>j. 1 \<le> j \<and> j < 10000 \<longrightarrow>
        \<not> (faultAt w (j - 1) = NoFault \<and> files w (candidate ?base ?ext j) = None)"
      by (simp add: reportsMissing_def suffixed_def)
    then show ?thesis
      unfolding run by (rule resolveFrom_unreported)
  qed
  have existing: "fst (ResolveConflict w p) = p \<and>
            (\<forall>j. 1 \<le> j \<and> j \<le> 9999 \<longrightarrow> \<not> reportsMissing w p j)"
    if ex: "files w (fst (ResolveConflict w p)) \<noteq> None"
  proof (cases "\<exists>k. 1 \<le> k \<and> k \<le> 9999 \<and> reportsMissing w p k")
    case True
    define k where "k = (LEAST k. 1 \<le> k \<and> k \<le> 9999 \<and> reportsMissing w p k)"
    from True have k: "1 \<le> k \<and> k \<le> 9999 \<and> reportsMissing w p k"
      unfolding k_def by (rule LeastI_ex)
    have "\<not> reportsMissing w p j" if "1 \<le> j" "j < k" for j
    proof
      assume "reportsMissing w p j"
      with that k have "1 \<le> j \<and> j \<le> 9999 \<and> reportsMissing w p j"
        by simp
      then have "k \<le> j"
        unfolding k_def by (rule Least_le)
      with that show False by simp
    qed
    then have "\<forall>j. 1 \<le> j \<and> j < k \<longrightarrow> \<not> reportsMissing w p j"
      by simp
    with k have "1 \<le> k" "k \<le> 9999" "reportsMissing w p k"
      "\<forall>j. 1 \<le> j \<and> j < k \<longrightarrow> \<not> reportsMissing w p j"
      by simp_all
    then have "files w (fst (ResolveConflict w p)) = None"
      by (rule found [THEN conjunct2, THEN conjunct1])
    with ex show ?thesis by simp
  next
    case False
    then have all: "\<forall>j. 1 \<le> j \<and> j \<le> 9999 \<longrightarrow> \<not> reportsMissing w p j"
      by simp
    from exhausted [OF all] all show ?thesis
      by (rule conjI)
  qed
  show ?thesis
  proof (intro conjI impI)
    show "suffixed p k = ?base @ ''_'' @ itoa k @ ?ext" by (rule names)
    show "?base @ ?ext = p" by (rule base_ext)
    show "Ext p = Ext_spec p" by (rule Ext_is_spec)
    show "list_all isDigit (itoa k)" by (rule itoa_digits)
    show "decimalValue (itoa k) = k" by (rule itoa_value)
    show "itoa 0 = ''0''" by code_simp
    show "hd (itoa k) \<noteq> CHR ''0''" if "k \<noteq> 0"
      using that by (rule itoa_no_leading_zero)
  next
    assume "1 \<le> k \<and> k \<le> 9999 \<and> reportsMissing w p k \<and>
      (\<forall>j. 1 \<le> j \<and> j < k \<longrightarrow> \<not> reportsMissing w p j)"
    then have "fst (ResolveConflict w p) = suffixed p k \<and>
        files w (fst (ResolveConflict w p)) = None \<and>
        newCalls w (snd (ResolveConflict w p)) =
          map (\<lambda>j. (Stat (suffixed p j), faultAt w (j - 1) = NoFault)) [1..<k] @
          [(Stat (suffixed p k), False)]"
      by (intro found) simp_all
    then show "fst (ResolveConflict w p) = suffixed p k"
      and "files w (fst (ResolveConflict w p)) = None"
      and "newCalls w (snd (ResolveConflict w p)) =
          map (\<lambda>j. (Stat (suffixed p j), faultAt w (j - 1) = NoFault)) [1..<k] @
          [(Stat (suffixed p k), False)]"
      by blast+
  next
    assume "\<forall>j. 1 \<le> j \<and> j \<le> 9999 \<longrightarrow> \<not> reportsMissing w p j"
    then show "fst (ResolveConflict w p) = p"
      by (rule exhausted)
  next
    assume ex: "files w (fst (ResolveConflict w p)) \<noteq> None"
    from existing [OF ex] show "fst (ResolveConflict w p) = p"
      and "\<forall>j. 1 \<le> j \<and> j \<le> 9999 \<longrightarrow> \<not> reportsMissing w p j"
      by simp_all
  qed
qed

text \<open>
  The amended C8 at a directory where \<open>a.jpg\<close> and \<open>a_1.jpg\<close> exist, and at one where every
  path exists.
\<close>

theorem ResolveConflict_first_reported_witness:
  "fst (ResolveConflict
          \<lparr>files = [''/out/a.jpg'' \<mapsto> ''old'', ''/out/a_1.jpg'' \<mapsto> ''older''],
           pending = [], trace = []\<rparr> ''/out/a.jpg'') = ''/out/a_2.jpg'' \<and>
   newCalls \<lparr>files = [''/out/a.jpg'' \<mapsto> ''old'', ''/out/a_1.jpg'' \<mapsto> ''older''],
           pending = [], trace = []\<rparr>
     (snd (ResolveConflict
          \<lparr>files = [''/out/a.jpg'' \<mapsto> ''old'', ''/out/a_1.jpg'' \<mapsto> ''older''],
           pending = [], trace = []\<rparr> ''/out/a.jpg'')) =
     [(Stat ''/out/a_1.jpg'', True), (Stat ''/out/a_2.jpg'', False)] \<and>
   fst (ResolveConflict \<lparr>files = (\<lambda>p. Some ''taken''), pending = [], trace = []\<rparr>
          ''/out/a.jpg'') = ''/out/a.jpg'' \<and>
   suffixed ''/out/a.jpg'' 2 = ''/out/a_2.jpg'' \<and> Ext_spec ''/out/a.jpg'' = ''.jpg''"
proof -
  let ?w = "\<lparr>files = [''/out/a.jpg'' \<mapsto> ''old'', ''/out/a_1.jpg'' \<mapsto> ''older''],
           pending = [], trace = []\<rparr>"
  let ?full = "\<lparr>files = (\<lambda>p. Some ''taken''), pending = [], trace = []\<rparr>"
  have s1: "suffixed ''/out/a.jpg'' (Suc 0) = ''/out/a_1.jpg''"
    and s2: "suffixed ''/out/a.jpg'' 2 = ''/out/a_2.jpg''"
    and ext: "Ext_spec ''/out/a.jpg'' = ''.jpg''"
    by code_simp+
  have quiet: "faultAt ?w n = NoFault" for n
    by (simp add: faultAt_def)
  have free: "reportsMissing ?w ''/out/a.jpg'' 2"
    by (simp add: reportsMissing_def quiet s2)
  have taken: "\<forall>j. 1 \<le> j \<and> j < 2 \<longrightarrow> \<not> reportsMissing ?w ''/out/a.jpg'' j"
  proof (intro allI impI)
    fix j :: nat
    assume "1 \<le> j \<and> j < 2"
    then have "j = Suc 0" by arith
    then show "\<not> reportsMissing ?w ''/out/a.jpg'' j"
      by (simp add: reportsMissing_def s1)
  qed
  have all: "\<forall>j. 1 \<le> j \<and> j \<le> 9999 \<longrightarrow> \<not> reportsMissing ?full ''/out/a.jpg'' j"
    by (simp add: reportsMissing_def)
  have pre: "1 \<le> (2::nat) \<and> (2::nat) \<le> 9999 \<and> reportsMissing ?w ''/out/a.jpg'' 2 \<and>
          (\<forall>j. 1 \<le> j \<and> j < 2 \<longrightarrow> \<not> reportsMissing ?w ''/out/a.jpg'' j)"
    using free taken by simp
  have upt: "[1..<2] = [Suc 0]"
    by (simp add: upt_rec)
  note inst = ResolveConflict_first_reported [of "''/out/a.jpg''" 2 ?w]
  from inst have step: "1 \<le> (2::nat) \<and> (2::nat) \<le> 9999 \<and> reportsMissing ?w ''/out/a.jpg'' 2 \<and>
      (\<forall>j. 1 \<le> j \<and> j < 2 \<longrightarrow> \<not> reportsMissing ?w ''/out/a.jpg'' j) \<longrightarrow>
        fst (ResolveConflict ?w ''/out/a.jpg'') = suffixed ''/out/a.jpg'' 2 \<and>
        files ?w (fst (ResolveConflict ?w ''/out/a.jpg'')) = None \<and>
        newCalls ?w (snd (ResolveConflict ?w ''/out/a.jpg'')) =
          map (\<lambda>j. (Stat (suffixed ''/out/a.jpg'' j), faultAt ?w (j - 1) = NoFault)) [1..<2] @
          [(Stat (suffixed ''/out/a.jpg'' 2), False)]"
    by (elim conjE)
  from step [THEN mp, OF pre]
  have first: "fst (ResolveConflict ?w ''/out/a.jpg'') = ''/out/a_2.jpg''"
    and calls: "newCalls ?w (snd (ResolveConflict ?w ''/out/a.jpg'')) =
       [(Stat ''/out/a_1.jpg'', True), (Stat ''/out/a_2.jpg'', False)]"
    by (simp_all only: s1 s2 upt list.map append.simps quiet simp_thms)
  from ResolveConflict_first_reported [of "''/out/a.jpg''" 1 ?full]
  have "(\<forall>j. 1 \<le> j \<and> j \<le> 9999 \<longrightarrow> \<not> reportsMissing ?full ''/out/a.jpg'' j) \<longrightarrow>
        fst (ResolveConflict ?full ''/out/a.jpg'') = ''/out/a.jpg''"
    by (elim conjE)
  from this [THEN mp, OF all]
  have last: "fst (ResolveConflict ?full ''/out/a.jpg'') = ''/out/a.jpg''" .
  from first calls last s2 ext show ?thesis
    by (intro conjI)
qed

section \<open>The atomic mover after a rename that succeeded\<close>

lemma osOpen_files: "osOpen w p = (r, w') \<Longrightarrow> files w' = files w"
  by (auto simp: osOpen_def logged_def Let_def)

lemma osOpen_exists: "osOpen w p = (Inr u, w') \<Longrightarrow> files w p \<noteq> None"
  by (auto simp: osOpen_def Let_def split: fault.splits option.splits)

lemma ioReadAll_files: "ioReadAll w p = (r, w') \<Longrightarrow> files w' = files w"
  by (auto simp: ioReadAll_def logged_def Let_def)

lemma GetFileHash_files: "GetFileHash H w p = (r, w') \<Longrightarrow> files w' = files w"
  by (auto simp: GetFileHash_def split: prod.splits sum.splits
      dest!: osOpen_files ioReadAll_files)

lemma GetFileHash_exists: "GetFileHash H w p = (Inr h, w') \<Longrightarrow> files w p \<noteq> None"
  by (auto simp: GetFileHash_def split: prod.splits sum.splits dest: osOpen_exists)

lemma osRename_moves:
  "osRename w src dst = (Inr u, w') \<Longrightarrow>
     \<exists>c. files w src = Some c \<and> files w' = (files w)(src := None, dst \<mapsto> c)"
  by (auto simp: osRename_def logged_def split: fault.splits option.splits)

lemma osRemove_other: "q \<noteq> p \<Longrightarrow> files (snd (osRemove w p)) q = files w q"
  by (auto simp: osRemove_def logged_def split: fault.splits option.splits)

lemma osRemove_removes: "nextFault w = NoFault \<Longrightarrow> files (snd (osRemove w p)) p = None"
  by (auto simp: osRemove_def logged_def split: fault.splits option.splits)

lemma osRemove_calls: "\<exists>ok. trace (snd (osRemove w p)) = trace w @ [(Remove p, ok)]"
  by (auto simp: osRemove_def logged_def split: fault.splits option.splits)

text \<open>
  C10 as stated fails when the hash read fails after a rename that succeeded: the
  destination cannot be opened, \<open>AtomicMove\<close> returns the post-move hash error, and the
  destination is still there; no \<open>Remove\<close> was called.
\<close>

theorem AtomicMove_keeps_destination_on_read_failure:
  "let r = AtomicMove (\<lambda>bs. bs)
             \<lparr>files = [''/in/a.jpg'' \<mapsto> ''data''],
              pending = [NoFault, NoFault, NoFault, Fail], trace = []\<rparr>
             ''/in/a.jpg'' ''/out/a.jpg''
   in fst r = Inl (PostMoveHash EIO) \<and>
      files (snd r) ''/out/a.jpg'' = Some ''data'' \<and>
      files (snd r) ''/in/a.jpg'' = None \<and>
      trace (snd r) =
        [(Open ''/in/a.jpg'', True), (ReadAll ''/in/a.jpg'', True),
         (Rename ''/in/a.jpg'' ''/out/a.jpg'', True), (Open ''/out/a.jpg'', False)]"
  by code_simp

text \<open>
  C10, amended: after a rename that succeeded the source is gone and the destination
  holds its content, and \<open>AtomicMove\<close> hashes the destination again. If that hash cannot
  be read, the move fails and the destination stays. If the hash equals the one taken
  before the move, the move succeeds. If it differs, \<open>AtomicMove\<close> removes the destination
  and the move fails with the integrity error: when the removal meets no fault, neither
  the source nor the destination is left.
\<close>

theorem AtomicMove_after_rename:
  assumes "src \<noteq> dst"
    and "GetFileHash H w src = (Inr sh, w1)"
    and "osRename w1 src dst = (Inr (), w2)"
    and "GetFileHash H w2 dst = (r, w3)"
  shows "files w src \<noteq> None \<and> files w3 src = None \<and> files w3 dst = files w src \<and>
         (\<forall>e. r = Inl e \<longrightarrow> AtomicMove H w src dst = (Inl (PostMoveHash e), w3)) \<and>
         (r = Inr sh \<longrightarrow> AtomicMove H w src dst = (Inr (), w3)) \<and>
         (\<forall>th. r = Inr th \<and> th \<noteq> sh \<longrightarrow>
            AtomicMove H w src dst = (Inl IntegrityFailed, snd (osRemove w3 dst)) \<and>
            files (snd (osRemove w3 dst)) src = None \<and>
            (nextFault w3 = NoFault \<longrightarrow> files (snd (osRemove w3 dst)) dst = None))"
proof -
  from assms(2) have f1: "files w1 = files w" and ex: "files w src \<noteq> None"
    by (auto dest: GetFileHash_files GetFileHash_exists)
  from osRename_moves [OF assms(3)] f1 obtain c where
    c: "files w src = Some c" and f2: "files w2 = (files w)(src := None, dst \<mapsto> c)"
    by auto
  from assms(4) have f3: "files w3 = files w2"
    by (rule GetFileHash_files)
  from f2 f3 assms(1) c have gone: "files w3 src = None" and kept: "files w3 dst = files w src"
    by simp_all
  have fail: "AtomicMove H w src dst = (Inl (PostMoveHash e), w3)" if "r = Inl e" for e
    using assms(2-4) that by (simp add: AtomicMove_def AtomicMove_verify_def)
  have good: "AtomicMove H w src dst = (Inr (), w3)" if "r = Inr sh"
    using assms(2-4) that by (simp add: AtomicMove_def AtomicMove_verify_def)
  have bad: "AtomicMove H w src dst = (Inl IntegrityFailed, snd (osRemove w3 dst))"
    if "r = Inr th" "th \<noteq> sh" for th
    using assms(2-4) that
    by (simp add: AtomicMove_def AtomicMove_verify_def split: prod.splits)
  from assms(1) gone have lost: "files (snd (osRemove w3 dst)) src = None"
    by (simp add: osRemove_other)
  from ex gone kept fail good bad lost show ?thesis
    by (simp add: osRemove_removes)
qed

text \<open>
  The amended C10 at a rename that succeeds and a verifying read that returns the content
  without its last byte.
\<close>

theorem AtomicMove_after_rename_witness:
  "fst (AtomicMove (\<lambda>bs. bs)
          \<lparr>files = [''/in/a.jpg'' \<mapsto> ''data''],
           pending = [NoFault, NoFault, NoFault, NoFault, Garble ''dat''], trace = []\<rparr>
          ''/in/a.jpg'' ''/out/a.jpg'') = Inl IntegrityFailed \<and>
   files (snd (AtomicMove (\<lambda>bs. bs)
          \<lparr>files = [''/in/a.jpg'' \<mapsto> ''data''],
           pending = [NoFault, NoFault, NoFault, NoFault, Garble ''dat''], trace = []\<rparr>
          ''/in/a.jpg'' ''/out/a.jpg'')) ''/in/a.jpg'' = None \<and>
   files (snd (AtomicMove (\<lambda>bs. bs)
          \<lparr>files = [''/in/a.jpg'' \<mapsto> ''data''],
           pending = [NoFault, NoFault, NoFault, NoFault, Garble ''dat''], trace = []\<rparr>
          ''/in/a.jpg'' ''/out/a.jpg'')) ''/out/a.jpg'' = None"
proof -
  let ?H = "\<lambda>bs :: string. bs"
  let ?w = "\<lparr>files = [''/in/a.jpg'' \<mapsto> ''data''],
           pending = [NoFault, NoFault, NoFault, NoFault, Garble ''dat''], trace = []\<rparr>"
  let ?w1 = "snd (GetFileHash ?H ?w ''/in/a.jpg'')"
  let ?w2 = "snd (osRename ?w1 ''/in/a.jpg'' ''/out/a.jpg'')"
  let ?w3 = "snd (GetFileHash ?H ?w2 ''/out/a.jpg'')"
  have "fst (GetFileHash ?H ?w ''/in/a.jpg'') = Inr ''data''"
    by code_simp
  then have 1: "GetFileHash ?H ?w ''/in/a.jpg'' = (Inr ''data'', ?w1)"
    by (simp add: prod_eq_iff)
  have "fst (osRename ?w1 ''/in/a.jpg'' ''/out/a.jpg'') = Inr ()"
    by code_simp
  then have 2: "osRename ?w1 ''/in/a.jpg'' ''/out/a.jpg'' = (Inr (), ?w2)"
    by (simp add: prod_eq_iff)
  have "fst (GetFileHash ?H ?w2 ''/out/a.jpg'') = Inr ''dat''"
    by code_simp
  then have 3: "GetFileHash ?H ?w2 ''/out/a.jpg'' = (Inr ''dat'', ?w3)"
    by (simp add: prod_eq_iff)
  have 4: "''/in/a.jpg'' \<noteq> ''/out/a.jpg''" "''dat'' \<noteq> ''data''"
    by simp_all
  have 5: "nextFault ?w3 = NoFault"
    by code_simp
  from AtomicMove_after_rename [OF 4(1) 1 2 3] 4(2) 5 show ?thesis
    by simp
qed

section \<open>The move of the command-line variant\<close>

text \<open>
  The copy path of the command-line variant, for comparison with \<open>AtomicMove\<close>: whenever
  the move counts as an error, the source file is what it was.
\<close>

lemma osRename_failed: "osRename w src dst = (Inl e, w') \<Longrightarrow> files w' = files w"
  by (auto simp: osRename_def logged_def split: fault.splits option.splits)

lemma CopyFile_other: "CopyFile w src dst = (r, w') \<Longrightarrow> q \<noteq> dst \<Longrightarrow> files w' q = files w q"
  by (auto simp: CopyFile_def osOpen_def osCreate_def ioCopy_def fileSync_def logged_def Let_def
      split: prod.splits sum.splits fault.splits option.splits)

lemma main_move_error_keeps_source:
  assumes "fst (main_move H w p targetPath) = Errors" and "p \<noteq> targetPath"
  shows "files (snd (main_move H w p targetPath)) p = files w p"
proof -
  obtain r0 w1 where ren: "osRename w p targetPath = (r0, w1)"
    by (cases "osRename w p targetPath")
  obtain r1 w2 where cp: "copyFile w1 p targetPath = (r1, w2)"
    by (cases "copyFile w1 p targetPath")
  obtain r2 w3 where h1: "fileHash H w2 p = (r2, w3)"
    by (cases "fileHash H w2 p")
  obtain r3 w4 where h2: "fileHash H w3 targetPath = (r3, w4)"
    by (cases "fileHash H w3 targetPath")
  from assms(1) ren obtain e where r0: "r0 = Inl e"
    by (cases r0) (auto simp: main_move_def)
  with ren have f1: "files w1 = files w"
    by (auto dest: osRename_failed)
  from cp assms(2) have f2: "files w2 p = files w1 p"
    by (auto simp: copyFile_def dest: CopyFile_other)
  from h1 h2 have f4: "files w4 = files w2"
    by (auto simp: fileHash_def dest!: GetFileHash_files)
  show ?thesis
  proof (cases r1)
    case (Inl e1)
    with ren r0 cp f1 f2 show ?thesis
      by (simp add: main_move_def)
  next
    case (Inr u)
    with assms(1) ren r0 cp h1 h2
    have "snd (main_move H w p targetPath) = snd (osRemove w4 targetPath)"
      by (auto simp: main_move_def split: prod.splits sum.splits if_splits)
    with assms(2) f1 f2 f4 show ?thesis
      by (simp add: osRemove_other)
  qed
qed

end
